theory Spec2Isabelle
  imports Complex_Main "HOL-Library.Monad_Syntax" "HOL-Library.Finite_Map"
begin

section \<open>Data model\<close>

text \<open>
  A \<open>linalg.Vector\<close> is a slice of 64-bit floats. The code under study never does
  arithmetic on the components itself (it allocates zero vectors, slices and concatenates);
  all arithmetic happens inside the collaborators (Blocks, Results, cost functions), which
  are parameters of the model. Components are therefore reals.
\<close>

type_synonym vec = "real list"

text \<open>
  A run-time panic (index out of range, slice bounds out of range, nil dereference, an
  explicit \<open>panic(...)\<close>) is the value \<open>None\<close>.
\<close>

definition idx :: "'a list \<Rightarrow> nat \<Rightarrow> 'a option" where
  "idx xs i = (if i < length xs then Some (xs ! i) else None)"

definition idx_int :: "'a list \<Rightarrow> int \<Rightarrow> 'a option" where
  "idx_int xs i = (if 0 \<le> i \<and> i < int (length xs) then Some (xs ! nat i) else None)"

text \<open>Go's \<open>int\<close> is 64 bits wide; arithmetic wraps.\<close>

definition wrap64 :: "int \<Rightarrow> int" where
  "wrap64 x = signed_take_bit 63 x"

text \<open>
  \<open>*autofunc.Variable\<close>: the pointer's identity is the field \<open>ref\<close> (gradient maps are
  keyed by pointer), \<open>Vector\<close> is the value it holds.
\<close>

record variable =
  ref :: nat
  Vector :: vec

text \<open>\<open>autofunc.Gradient\<close> is \<open>map[*Variable]linalg.Vector\<close>.\<close>

type_synonym gradient = "nat \<rightharpoonup> vec"

text \<open>The interface \<open>autofunc.Result\<close>, as the record of its methods.\<close>

record result =
  Output :: vec
  Constant :: "gradient \<Rightarrow> bool"
  PropagateGradient :: "vec \<Rightarrow> gradient \<Rightarrow> gradient"

text \<open>
  \<open>autofunc.Variable\<close> seen as a \<open>Result\<close>, after the methods of the autofunc library: it is
  constant when the gradient map has no entry for it, and propagation adds the upstream
  vector to its entry, if there is one.
\<close>

definition add_to :: "gradient \<Rightarrow> nat \<Rightarrow> vec \<Rightarrow> gradient" where
  "add_to g r v = (case g r of None \<Rightarrow> g | Some x \<Rightarrow> g(r \<mapsto> map2 (+) x v))"

definition var_result :: "variable \<Rightarrow> result" where
  "var_result v = \<lparr>Output = Vector v, Constant = (\<lambda>g. g (ref v) = None),
      PropagateGradient = (\<lambda>u g. add_to g (ref v) u)\<rparr>"

text \<open>
  \<open>UpstreamGradient\<close>, \<open>BlockInput\<close>, the interfaces \<open>BlockOutput\<close> and \<open>Block\<close>. A nil
  slice and an empty slice are both the empty list (the code never builds an empty
  non-nil slice of vectors). Field names that several Go types share carry a prefix:
  \<open>up_\<close> for UpstreamGradient, \<open>in_\<close> for BlockInput. \<open>Learner\<close> is the optional
  interface \<open>sgd.Learner\<close> of a Block: its \<open>Parameters()\<close> when the Block implements it.
\<close>

record UpstreamGradient =
  up_States :: "vec list"
  up_Outputs :: "vec list"

record BlockInput =
  in_States :: "variable list"
  in_Inputs :: "variable list"

record BlockOutput =
  States :: "vec list"
  Outputs :: "vec list"
  Gradient :: "UpstreamGradient \<Rightarrow> gradient \<Rightarrow> gradient"

record Block =
  StateSize :: nat
  StartState :: result
  Batch :: "BlockInput \<Rightarrow> BlockOutput"
  Learner :: "variable list option"

section \<open>Truncated back-propagation session (seqProp)\<close>

text \<open>
  \<open>Sample\<close> (inputs and desired outputs of one sequence), \<open>seqPropStep\<close> and \<open>seqProp\<close>.
  The slice \<open>s.memory\<close> is modelled with its backing array: \<open>memory\<close> is the visible part
  (indices below \<open>len\<close>), \<open>memory_spare\<close> the slots between \<open>len\<close> and \<open>cap\<close>. Slots hold
  pointers, \<open>None\<close> is nil. \<open>CostFunc\<close> stands for \<open>costFuncDeriv(s.CostFunc, desired, actual)\<close>.
\<close>

record Sample =
  Inputs :: "vec list"
  sample_Outputs :: "vec list"

record seqPropStep =
  step_StartState :: "result option"
  step_Output :: BlockOutput
  InStates :: "variable list"
  InSeqs :: "Sample list"

record seqProp =
  sp_Block :: Block
  CostFunc :: "vec \<Rightarrow> vec \<Rightarrow> vec"
  memory :: "seqPropStep option list"
  memory_spare :: "seqPropStep option list"

definition MemoryCount :: "seqProp \<Rightarrow> nat" where
  "MemoryCount s = length (memory s)"

text \<open>Go's builtin \<open>copy(dst, src)\<close>: the first \<open>min (len dst) (len src)\<close> elements.\<close>

definition copy_slice :: "'a list \<Rightarrow> 'a list \<Rightarrow> 'a list" where
  "copy_slice dst src = take (length dst) src @ drop (length src) dst"

text \<open>\<open>for i := 0; i < removeCount; i++ { s.memory[i+n] = nil }\<close>\<close>

function clear_slots :: "'a option list \<Rightarrow> nat \<Rightarrow> nat \<Rightarrow> nat \<Rightarrow> 'a option list option" where
  "clear_slots mem n removeCount i =
     (if i < removeCount then
        (if i + n < length mem then clear_slots (mem[i + n := None]) n removeCount (Suc i)
         else None)
      else Some mem)"
  by pat_completeness auto
termination
  by (relation "measure (\<lambda>(mem, n, removeCount, i). removeCount - i)") auto

declare clear_slots.simps [simp del]

text \<open>
  \<open>Truncate\<close>. With \<open>n < 0\<close> and so \<open>removeCount > len\<close>, the slice expression
  \<open>s.memory[removeCount:]\<close> panics. The result's \<open>memory\<close> is \<open>s.memory[:n]\<close>; the slots
  behind it stay in the backing array.
\<close>

definition Truncate :: "seqProp \<Rightarrow> int \<Rightarrow> seqProp option" where
  "Truncate s n =
     (let removeCount = wrap64 (int (MemoryCount s) - n) in
      if removeCount \<le> 0 then Some s
      else if removeCount > int (MemoryCount s) then None
      else do {
        let copied = copy_slice (memory s) (drop (nat removeCount) (memory s));
        cleared \<leftarrow> clear_slots copied (nat n) (nat removeCount) 0;
        if n < 0 \<or> nat n > length cleared + length (memory_spare s) then None
        else Some (s\<lparr>memory := take (nat n) cleared,
                     memory_spare := drop (nat n) cleared @ memory_spare s\<rparr>)
      })"

text \<open>\<open>removeEmpty\<close>, \<open>removeFirst\<close>, \<open>filterContinued\<close>, \<open>injectDiscontinued\<close>.\<close>

fun removeEmpty :: "Sample list \<Rightarrow> Sample list" where
  "removeEmpty [] = []"
| "removeEmpty (seq # seqs) =
     (if length (Inputs seq) \<noteq> 0 then seq # removeEmpty seqs else removeEmpty seqs)"

text \<open>
  In \<open>removeFirst\<close> the slice expressions \<open>seq.Inputs[1:]\<close> and \<open>seq.Outputs[1:]\<close> panic on
  an empty slice; a sequence with exactly one input is skipped before they are evaluated.
\<close>

fun removeFirst :: "Sample list \<Rightarrow> Sample list option" where
  "removeFirst [] = Some []"
| "removeFirst (seq # seqs) =
     (if length (Inputs seq) = 1 then removeFirst seqs
      else if length (Inputs seq) < 1 \<or> length (sample_Outputs seq) < 1 then None
      else do {
        nextSeqs \<leftarrow> removeFirst seqs;
        Some (\<lparr>Inputs = drop 1 (Inputs seq), sample_Outputs = drop 1 (sample_Outputs seq)\<rparr>
                # nextSeqs)
      })"

text \<open>The loop of \<open>filterContinued\<close> from index \<open>i\<close> on; \<open>ins[i]\<close> may be out of range.\<close>

fun filterContinued_from :: "nat \<Rightarrow> Sample list \<Rightarrow> vec list \<Rightarrow> vec list option" where
  "filterContinued_from i [] ins = Some []"
| "filterContinued_from i (seq # seqs) ins =
     (if length (Inputs seq) > 1 then
        do {
          x \<leftarrow> idx ins i;
          res \<leftarrow> filterContinued_from (Suc i) seqs ins;
          Some (x # res)
        }
      else filterContinued_from (Suc i) seqs ins)"

definition filterContinued :: "Sample list \<Rightarrow> vec list \<Rightarrow> vec list option" where
  "filterContinued seqs ins = filterContinued_from 0 seqs ins"

text \<open>
  The loop of \<open>injectDiscontinued\<close> with the running \<open>takeIdx\<close>; \<open>outs[takeIdx]\<close> may be
  out of range. \<open>zeroVec\<close> is \<open>make(linalg.Vector, vecLen)\<close>, allocated once and shared.
\<close>

fun injectDiscontinued_from :: "nat \<Rightarrow> Sample list \<Rightarrow> vec list \<Rightarrow> nat \<Rightarrow> vec list option" where
  "injectDiscontinued_from takeIdx [] outs vecLen = Some []"
| "injectDiscontinued_from takeIdx (s # seqs) outs vecLen =
     (if length (Inputs s) > 1 then
        do {
          x \<leftarrow> idx outs takeIdx;
          res \<leftarrow> injectDiscontinued_from (Suc takeIdx) seqs outs vecLen;
          Some (x # res)
        }
      else
        do {
          res \<leftarrow> injectDiscontinued_from takeIdx seqs outs vecLen;
          Some (replicate vecLen 0 # res)
        })"

definition injectDiscontinued :: "Sample list \<Rightarrow> vec list \<Rightarrow> nat \<Rightarrow> vec list option" where
  "injectDiscontinued seqs outs vecLen = injectDiscontinued_from 0 seqs outs vecLen"

text \<open>
  \<open>headInput\<close>. Each \<open>&autofunc.Variable{...}\<close> allocates a fresh pointer; \<open>nxt\<close> is the next
  unused identity and is returned advanced. The second loop runs over the lanes from
  \<open>lane\<close> on.
\<close>

fun headInput_loop ::
  "nat \<Rightarrow> Sample list \<Rightarrow> vec list \<Rightarrow> BlockInput \<Rightarrow> nat \<Rightarrow> (BlockInput \<times> nat) option" where
  "headInput_loop lane [] lastStates input nxt = Some (input, nxt)"
| "headInput_loop lane (seq # seqs) lastStates input nxt =
     do {
       x \<leftarrow> idx (Inputs seq) 0;
       let inVar = \<lparr>ref = nxt, Vector = x\<rparr>;
       st \<leftarrow> idx lastStates lane;
       let inState = \<lparr>ref = Suc nxt, Vector = st\<rparr>;
       headInput_loop (Suc lane) seqs lastStates
         (input\<lparr>in_Inputs := in_Inputs input @ [inVar], in_States := in_States input @ [inState]\<rparr>)
         (Suc (Suc nxt))
     }"

definition headInput :: "seqProp \<Rightarrow> Sample list \<Rightarrow> nat \<Rightarrow> (BlockInput \<times> nat) option" where
  "headInput s seqs nxt =
     do {
       lastStates \<leftarrow>
         (if MemoryCount s > 0 then
            do {
              slot \<leftarrow> idx (memory s) (length (memory s) - 1);
              lastBlock \<leftarrow> slot;
              ls \<leftarrow> filterContinued (InSeqs lastBlock) (States (step_Output lastBlock));
              if length ls \<noteq> length seqs then None else Some ls
            }
          else Some (replicate (length seqs) (Output (StartState (sp_Block s)))));
       headInput_loop 0 seqs lastStates \<lparr>in_States = [], in_Inputs = []\<rparr> nxt
     }"

text \<open>
  \<open>s.memory = append(s.memory, step)\<close>. While the capacity allows, the record goes into the
  first spare slot of the backing array. When the array is full (\<open>len = cap\<close>), the runtime
  allocates a larger one, copies the visible part and leaves the new spare slots nil. How
  much larger is the runtime's choice and not fixed by the language: it is the parameter
  \<open>grow\<close> of the model, \<open>grow n\<close> being the number of spare slots left after the append to
  a full array of \<open>n\<close> elements (the gc runtime doubles small arrays: capacity 1, 2, 4, 8
  and so on, that is \<open>grow n = n - 1\<close>).
\<close>

definition append_memory :: "(nat \<Rightarrow> nat) \<Rightarrow> seqProp \<Rightarrow> seqPropStep \<Rightarrow> seqProp" where
  "append_memory grow s step =
     s\<lparr>memory := memory s @ [Some step],
       memory_spare := (if memory_spare s = [] then replicate (grow (length (memory s))) None
                        else drop 1 (memory_spare s))\<rparr>"

text \<open>\<open>TimeStep\<close> returns the session, the remaining batch and the allocation counter.\<close>

definition TimeStep ::
  "(nat \<Rightarrow> nat) \<Rightarrow> seqProp \<Rightarrow> Sample list \<Rightarrow> nat \<Rightarrow> (seqProp \<times> Sample list \<times> nat) option" where
  "TimeStep grow s inSeqs0 nxt =
     (let inSeqs = (if MemoryCount s = 0 then removeEmpty inSeqs0 else inSeqs0) in
      if length inSeqs = 0 then Some (s, [], nxt)
      else do {
        (input, nxt') \<leftarrow> headInput s inSeqs nxt;
        let output = Batch (sp_Block s) input;
        let step = \<lparr>step_StartState =
                      (if MemoryCount s = 0 then Some (StartState (sp_Block s)) else None),
                    step_Output = output, InStates = in_States input, InSeqs = inSeqs\<rparr>;
        let s' = append_memory grow s step;
        rest \<leftarrow> removeFirst inSeqs;
        Some (s', rest, nxt')
      })"

text \<open>
  \<open>BackPropagate\<close>. The loop over the output lanes of a head record:
  \<open>desiredOut := mem.InSeqs[lane].Outputs[0]\<close> may be out of range.
\<close>

fun costGrads_from ::
  "(vec \<Rightarrow> vec \<Rightarrow> vec) \<Rightarrow> Sample list \<Rightarrow> nat \<Rightarrow> vec list \<Rightarrow> vec list option" where
  "costGrads_from cf inSeqs lane [] = Some []"
| "costGrads_from cf inSeqs lane (output # outputs) =
     do {
       seq \<leftarrow> idx inSeqs lane;
       desiredOut \<leftarrow> idx (sample_Outputs seq) 0;
       rest \<leftarrow> costGrads_from cf inSeqs (Suc lane) outputs;
       Some (cf desiredOut output # rest)
     }"

text \<open>
  The calls into collaborators are logged (a ghost value, not part of the Go state):
  \<open>BlockGradient i u g\<close> for the call \<open>s.memory[i].Output.Gradient(upstream, g)\<close>, with the
  upstream \<open>u\<close> and the gradient map \<open>g\<close> that it is given, \<open>StartStatePropagate k\<close> for
  the \<open>k\<close>-th \<open>startState.PropagateGradient\<close>.
\<close>

datatype call = BlockGradient nat UpstreamGradient gradient | StartStatePropagate nat

text \<open>
  \<open>handover\<close> is the value assigned to \<open>upstream.States\<close> at the end of an iteration
  (the branch \<open>if i > 0\<close> under \<open>if len(stateGrads) > 0\<close>). \<open>continued\<close> is the test
  \<open>len(s.Inputs) > 1\<close> of \<open>filterContinued\<close> and \<open>injectDiscontinued\<close>.
\<close>

definition continued :: "Sample \<Rightarrow> bool" where
  "continued q = (1 < length (Inputs q))"

text \<open>
  One iteration of the loop of \<open>BackPropagate\<close>. The vectors in \<open>stateGrads\<close> are the very
  slices stored in \<open>g\<close> under the in-state variables, and the Block accumulates into them in
  place; the model reads them back from \<open>g\<close> after \<open>Gradient\<close> has run (a zero vector
  should the Block have removed the entry).
\<close>

definition handover :: "seqProp \<Rightarrow> int \<Rightarrow> vec list \<Rightarrow> vec list option" where
  "handover s i stateGrads =
     (if i > 0 then
        do {
          prevSlot \<leftarrow> idx_int (memory s) (i - 1);
          prev \<leftarrow> prevSlot;
          injectDiscontinued (InSeqs prev) stateGrads (StateSize (sp_Block s))
        }
      else Some stateGrads)"

definition bp_body ::
  "seqProp \<Rightarrow> int \<Rightarrow> int \<Rightarrow> bool \<Rightarrow> int \<Rightarrow> UpstreamGradient \<Rightarrow> gradient
     \<Rightarrow> (UpstreamGradient \<times> gradient \<times> call) option" where
  "bp_body s lowIdx lowHead getInitialState i upstream g =
     do {
       slot \<leftarrow> idx_int (memory s) i;
       mem \<leftarrow> slot;
       outs \<leftarrow> (if i \<ge> lowHead
                 then costGrads_from (CostFunc s) (InSeqs mem) 0 (Outputs (step_Output mem))
                 else Some []);
       let upstream1 = upstream\<lparr>up_Outputs := outs\<rparr>;
       let zero = replicate (StateSize (sp_Block s)) 0;
       let tracked = (i > lowIdx \<or> getInitialState);
       let g1 = (if tracked
                 then fold (\<lambda>state g. g(ref state \<mapsto> zero)) (InStates mem) g
                 else g);
       let g2 = Gradient (step_Output mem) upstream1 g1;
       let logged = BlockGradient (nat i) upstream1 g1;
       if tracked \<and> length (InStates mem) > 0 then
         do {
           let stateGrads =
                 map (\<lambda>state. case g2 (ref state) of Some x \<Rightarrow> x | None \<Rightarrow> zero) (InStates mem);
           let g3 = fold (\<lambda>state g. g(ref state := None)) (InStates mem) g2;
           states \<leftarrow> handover s i stateGrads;
           Some (upstream1\<lparr>up_States := states\<rparr>, g3, logged)
         }
       else Some (upstream1, g2, logged)
     }"

function bp_loop ::
  "seqProp \<Rightarrow> int \<Rightarrow> int \<Rightarrow> bool \<Rightarrow> int \<Rightarrow> UpstreamGradient \<Rightarrow> gradient \<Rightarrow> call list
     \<Rightarrow> (UpstreamGradient \<times> gradient \<times> call list) option" where
  "bp_loop s lowIdx lowHead getInitialState i upstream g calls =
     (if i \<ge> lowIdx then
        (case bp_body s lowIdx lowHead getInitialState i upstream g of
           None \<Rightarrow> None
         | Some (upstream', g', logged) \<Rightarrow>
             bp_loop s lowIdx lowHead getInitialState (i - 1) upstream' g'
               (calls @ [logged]))
      else Some (upstream, g, calls))"
  by pat_completeness auto
termination
  by (relation "measure (\<lambda>(s, lowIdx, lowHead, getInitialState, i, upstream, g, calls).
        nat (i - lowIdx + 1))") auto

declare bp_loop.simps [simp del]

definition BackPropagate ::
  "seqProp \<Rightarrow> gradient \<Rightarrow> int \<Rightarrow> int \<Rightarrow> (seqProp \<times> gradient \<times> call list) option" where
  "BackPropagate s g headSize tailSize =
     (if headSize = 0 \<or> MemoryCount s = 0 then Some (s, g, [])
      else do {
        let lowIdx0 = wrap64 (int (MemoryCount s) - wrap64 (headSize + tailSize));
        let lowHead = wrap64 (int (MemoryCount s) - headSize);
        let lowIdx = (if lowIdx0 < 0 then 0 else lowIdx0);
        lowSlot \<leftarrow> idx_int (memory s) lowIdx;
        low \<leftarrow> lowSlot;
        let getInitialState = (step_StartState low \<noteq> None);
        (upstream, g', calls) \<leftarrow>
          bp_loop s lowIdx lowHead getInitialState (int (MemoryCount s) - 1)
            \<lparr>up_States = [], up_Outputs = []\<rparr> g [];
        if getInitialState then
          do {
            firstSlot \<leftarrow> idx (memory s) 0;
            first \<leftarrow> firstSlot;
            startState \<leftarrow> step_StartState first;
            Some (s,
                  fold (\<lambda>stateUpstream g. PropagateGradient startState stateUpstream g)
                    (up_States upstream) g',
                  calls @ map StartStatePropagate [0..<length (up_States upstream)])
          }
        else Some (s, g', calls)
      })"

text \<open>
  Vocabulary for the statement about the hand-over in \<open>BackPropagate\<close>.
  \<open>stateGrads_after s mem u g\<close> is the list \<open>stateGrads\<close> of the iteration at the record
  \<open>mem\<close> once its call \<open>mem.Output.Gradient(u, g)\<close> has run. Two entries of the log are
  \<open>linked\<close> when, if they are the Block calls of records \<open>i\<close> and \<open>j\<close>, then \<open>j\<close> is
  \<open>i - 1\<close> and the upstream states of the second call are what \<open>handover\<close> makes of the
  state gradients of the first (provided record \<open>i\<close> has lanes).
\<close>

definition stateGrads_after ::
  "seqProp \<Rightarrow> seqPropStep \<Rightarrow> UpstreamGradient \<Rightarrow> gradient \<Rightarrow> vec list" where
  "stateGrads_after s mem u g =
     map (\<lambda>state. case Gradient (step_Output mem) u g (ref state) of
                    Some x \<Rightarrow> x | None \<Rightarrow> replicate (StateSize (sp_Block s)) 0)
       (InStates mem)"

definition linked :: "seqProp \<Rightarrow> call \<Rightarrow> call \<Rightarrow> bool" where
  "linked s c c' =
     (case (c, c') of
        (BlockGradient i u ga, BlockGradient j u' gb) \<Rightarrow>
          i = Suc j
          \<and> (\<forall>mem. memory s ! i = Some mem \<and> InStates mem \<noteq> [] \<longrightarrow>
                 handover s (int i) (stateGrads_after s mem u ga) = Some (up_States u'))
      | _ \<Rightarrow> True)"

text \<open>
  Vocabulary for the statements about \<open>TimeStep\<close>: a sequence with its first input and
  first target removed; a sequence on which \<open>headInput\<close> and \<open>removeFirst\<close> do not panic (it
  has an input, and a target unless it has exactly one input); and the test of \<open>headInput\<close>
  that the batch has one sequence per continuing lane of the newest record.
\<close>

definition tail_sample :: "Sample \<Rightarrow> Sample" where
  "tail_sample q = \<lparr>Inputs = drop 1 (Inputs q), sample_Outputs = drop 1 (sample_Outputs q)\<rparr>"

definition sample_ok :: "Sample \<Rightarrow> bool" where
  "sample_ok q = (Inputs q \<noteq> [] \<and> (length (Inputs q) = 1 \<or> sample_Outputs q \<noteq> []))"

definition lanes_match :: "seqProp \<Rightarrow> Sample list \<Rightarrow> bool" where
  "lanes_match s inSeqs =
     (if MemoryCount s = 0 then True
      else (case last (memory s) of
              None \<Rightarrow> False
            | Some lastBlock \<Rightarrow>
               (case filterContinued (InSeqs lastBlock) (States (step_Output lastBlock)) of
                  None \<Rightarrow> False
                | Some ls \<Rightarrow> length ls = length inSeqs)))"

section \<open>Sequence unroller (BlockSeqFunc)\<close>

text \<open>
  A loop whose body may panic, over a list of items: the bodies run in the list's order
  and the first panic ends the run.
\<close>

fun foldM :: "('a \<Rightarrow> 's \<Rightarrow> 's option) \<Rightarrow> 'a list \<Rightarrow> 's \<Rightarrow> 's option" where
  "foldM f [] s = Some s"
| "foldM f (x # xs) s = f x s \<bind> foldM f xs"

text \<open>
  \<open>loopUsedLanes\<close>. The map \<open>laneToOut\<close> is a finite map from lane indices to positions;
  the callback \<open>f\<close> is a function on the state it closes over, \<open>None\<close> when it panics. The
  loop counts \<open>lane\<close> up (a 64-bit \<open>int\<close>: the increment wraps) until \<open>k\<close> keys were found.
\<close>

partial_function (option) loopUsedLanes_from ::
  "(int, int) fmap \<Rightarrow> (int \<Rightarrow> 's \<Rightarrow> 's option) \<Rightarrow> int \<Rightarrow> int \<Rightarrow> 's \<Rightarrow> 's option" where
  "loopUsedLanes_from laneToOut f lane k s =
     (if k > 0 then
        (if fmlookup laneToOut lane \<noteq> None
         then f lane s \<bind> loopUsedLanes_from laneToOut f (wrap64 (lane + 1)) (k - 1)
         else loopUsedLanes_from laneToOut f (wrap64 (lane + 1)) k s)
      else Some s)"

declare loopUsedLanes_from.simps [code]

definition loopUsedLanes ::
  "(int, int) fmap \<Rightarrow> (int \<Rightarrow> 's \<Rightarrow> 's option) \<Rightarrow> 's \<Rightarrow> 's option" where
  "loopUsedLanes laneToOut f s =
     loopUsedLanes_from laneToOut f 0 (int (fcard (fmdom laneToOut))) s"


text \<open>
  \<open>BlockSeqFuncOutputStep\<close> and \<open>BlockSeqFuncOutput\<close>. The three slices of a step have one
  slot per lane, nil (\<open>None\<close>) for a lane that is not active; \<open>step_Outputs\<close> is nil until the
  Block has run. Fields: \<open>step_Inputs\<close> and \<open>step_Outputs\<close> are \<open>Inputs\<close> and \<open>Outputs\<close> of
  the step, \<open>out_StartState\<close> is \<open>StartState\<close> of the output.
\<close>

record BlockSeqFuncOutputStep =
  InStateVars :: "variable option list"
  InputVars :: "variable option list"
  step_Inputs :: "result option list"
  step_Outputs :: "BlockOutput option"
  LaneToOut :: "(int, int) fmap"

record BlockSeqFuncOutput =
  out_StartState :: result
  Steps :: "BlockSeqFuncOutputStep list"
  PackedOut :: "vec list list"

text \<open>Reading a Go map: the zero value for a missing key.\<close>

definition lookup0 :: "(int, int) fmap \<Rightarrow> int \<Rightarrow> int" where
  "lookup0 m k = (case fmlookup m k of None \<Rightarrow> 0 | Some v \<Rightarrow> v)"

definition empty_step :: "nat \<Rightarrow> BlockSeqFuncOutputStep" where
  "empty_step n = \<lparr>InStateVars = replicate n None, InputVars = replicate n None,
      step_Inputs = replicate n None, step_Outputs = None, LaneToOut = fmempty\<rparr>"

text \<open>
  The body of \<open>for l, seq := range seqs\<close> in \<open>BatchSeqs\<close> at time \<open>t\<close>, on the step under
  construction, the Block input and the allocation counter. The input variable is
  allocated before the in-state variable.
\<close>

definition lane_body ::
  "BlockSeqFuncOutput \<Rightarrow> result list list \<Rightarrow> nat \<Rightarrow> nat
     \<Rightarrow> BlockSeqFuncOutputStep \<times> BlockInput \<times> nat
     \<Rightarrow> (BlockSeqFuncOutputStep \<times> BlockInput \<times> nat) option" where
  "lane_body res seqs t l = (\<lambda>(step, input, nxt).
     let seq = seqs ! l in
     if length seq \<le> t then Some (step, input, nxt)
     else do {
       let inputVar = \<lparr>ref = nxt, Vector = Output (seq ! t)\<rparr>;
       let startVar = \<lparr>ref = Suc nxt, Vector = Output (out_StartState res)\<rparr>;
       inStateVar \<leftarrow>
         (if t > 0 then
            do {
              s \<leftarrow> idx (Steps res) (t - 1);
              outputs \<leftarrow> step_Outputs s;
              v \<leftarrow> idx_int (States outputs) (lookup0 (LaneToOut s) (int l));
              Some (startVar\<lparr>Vector := v\<rparr>)
            }
          else Some startVar);
       Some (step\<lparr>LaneToOut := fmupd (int l) (int (length (in_Inputs input))) (LaneToOut step),
                  step_Inputs := (step_Inputs step)[l := Some (seq ! t)],
                  InputVars := (InputVars step)[l := Some inputVar],
                  InStateVars := (InStateVars step)[l := Some inStateVar]\<rparr>,
             input\<lparr>in_Inputs := in_Inputs input @ [inputVar],
                   in_States := in_States input @ [inStateVar]\<rparr>,
             Suc (Suc nxt))
     })"

definition lane_loop ::
  "BlockSeqFuncOutput \<Rightarrow> result list list \<Rightarrow> nat \<Rightarrow> nat
     \<Rightarrow> (BlockSeqFuncOutputStep \<times> BlockInput \<times> nat) option" where
  "lane_loop res seqs t nxt =
     foldM (lane_body res seqs t) [0..<length seqs]
       (empty_step (length seqs), \<lparr>in_States = [], in_Inputs = []\<rparr>, nxt)"

text \<open>
  The body of \<open>for l, outIdx := range step.LaneToOut\<close>, which appends the lane's output to
  its packed sequence. Go leaves the order of this loop open; each pass touches only its
  own lane's row, and the model runs the lanes in increasing order.
\<close>

definition pack_body ::
  "(int, int) fmap \<Rightarrow> vec list \<Rightarrow> int \<Rightarrow> vec list list \<Rightarrow> vec list list option" where
  "pack_body laneToOut outputs l packed =
     do {
       outIdx \<leftarrow> fmlookup laneToOut l;
       out \<leftarrow> idx_int outputs outIdx;
       row \<leftarrow> idx_int packed l;
       Some (packed[nat l := row @ [out]])
     }"

lemma lane_body_keys:
  assumes "lane_body res seqs t l (step, input, nxt) = Some (step', input', nxt')"
  shows "fmdom' (LaneToOut step') =
           fmdom' (LaneToOut step) \<union> (if t < length (seqs ! l) then {int l} else {})"
  using assms
  by (auto simp: lane_body_def Let_def fmdom'_alt_def split: if_splits bind_splits)

lemma foldM_snoc: "foldM f (xs @ [x]) s = foldM f xs s \<bind> f x"
  by (induction xs arbitrary: s) (auto split: bind_splits)

lemma lane_loop_keys_upto:
  "n \<le> length seqs \<Longrightarrow>
   foldM (lane_body res seqs t) [0..<n] (step, input, nxt) = Some (step', input', nxt') \<Longrightarrow>
   fmdom' (LaneToOut step') =
     fmdom' (LaneToOut step) \<union> int ` {l. l < n \<and> t < length (seqs ! l)}"
proof (induction n arbitrary: step' input' nxt')
  case 0
  then show ?case by simp
next
  case (Suc n)
  from Suc.prems(2) obtain step1 input1 nxt1 where
    a: "foldM (lane_body res seqs t) [0..<n] (step, input, nxt) = Some (step1, input1, nxt1)"
    and b: "lane_body res seqs t n (step1, input1, nxt1) = Some (step', input', nxt')"
    by (auto simp: foldM_snoc split: bind_splits)
  have "{l. l < Suc n \<and> t < length (seqs ! l)}
      = {l. l < n \<and> t < length (seqs ! l)} \<union> (if t < length (seqs ! n) then {n} else {})"
    by (auto simp: less_Suc_eq)
  then show ?case using Suc.IH [OF _ a] Suc.prems(1) lane_body_keys [OF b] by auto
qed

lemma lane_loop_keys:
  assumes "lane_loop res seqs t nxt = Some (step, input, nxt')"
  shows "fmdom' (LaneToOut step) = int ` {l. l < length seqs \<and> t < length (seqs ! l)}"
  using lane_loop_keys_upto [OF order_refl assms [unfolded lane_loop_def]]
  by (simp add: empty_step_def)

text \<open>
  The loop of \<open>BatchSeqs\<close> from time \<open>t\<close> on. It ends at the first \<open>t\<close> at which no lane is
  active, so \<open>t\<close> stays below the longest sequence's length.
\<close>

function BatchSeqs_loop ::
  "Block \<Rightarrow> result list list \<Rightarrow> nat \<Rightarrow> BlockSeqFuncOutput \<Rightarrow> nat
     \<Rightarrow> (BlockSeqFuncOutput \<times> nat) option" where
  "BatchSeqs_loop r seqs t res nxt =
     (case lane_loop res seqs t nxt of
        None \<Rightarrow> None
      | Some (step0, input, nxt') \<Rightarrow>
          if fcard (fmdom (LaneToOut step0)) = 0 then Some (res, nxt')
          else
            (let output = Batch r input;
                 step = step0\<lparr>step_Outputs := Some output\<rparr>;
                 res1 = res\<lparr>Steps := Steps res @ [step]\<rparr>
             in case foldM (pack_body (LaneToOut step) (Outputs output))
                       (sorted_list_of_fset (fmdom (LaneToOut step))) (PackedOut res1) of
                  None \<Rightarrow> None
                | Some packed \<Rightarrow>
                    BatchSeqs_loop r seqs (Suc t) (res1\<lparr>PackedOut := packed\<rparr>) nxt'))"
  by pat_completeness auto
termination
proof (relation "measure (\<lambda>(r, seqs, t, res, nxt). Max (insert 0 (length ` set seqs)) - t)",
    goal_cases)
  case 1
  then show ?case by simp
next
  case (2 r seqs t res nxt a step0 b inp nxt1 out step res1 packed)
  from 2(1,2,3) have ll: "lane_loop res seqs t nxt = Some (step0, inp, nxt1)" by simp
  have "fmdom' (LaneToOut step0) \<noteq> {}"
    using 2(4) by (auto simp: fmdom'_alt_def fcard.rep_eq)
  then obtain l where "l < length seqs" "t < length (seqs ! l)"
    using lane_loop_keys [OF ll] by auto
  then have "length (seqs ! l) \<in> insert 0 (length ` set seqs)" by auto
  then have "length (seqs ! l) \<le> Max (insert 0 (length ` set seqs))"
    by (intro Max_ge) auto
  then show ?case using \<open>t < length (seqs ! l)\<close> by simp
qed

declare BatchSeqs_loop.simps [simp del]

definition BlockSeqFunc_BatchSeqs ::
  "Block \<Rightarrow> result list list \<Rightarrow> nat \<Rightarrow> (BlockSeqFuncOutput \<times> nat) option" where
  "BlockSeqFunc_BatchSeqs r seqs nxt =
     BatchSeqs_loop r seqs 0
       \<lparr>out_StartState = StartState r, Steps = [], PackedOut = replicate (length seqs) []\<rparr> nxt"

text \<open>
  \<open>BlockSeqFuncOutput.Gradient\<close>. The first callback handed to \<open>loopUsedLanes\<close> builds the
  step's upstream gradient and creates the entries of the in-state variable and (unless the
  input is constant) of the input variable; the second one takes them out again. Reading a
  missing key of \<open>g\<close> gives nil, which is \<open>None\<close> in \<open>stateUpstreams\<close> and the empty vector as
  an upstream argument.
\<close>

definition grad_prepare ::
  "BlockSeqFuncOutputStep \<Rightarrow> vec list list \<Rightarrow> nat \<Rightarrow> vec option list \<Rightarrow> int
     \<Rightarrow> UpstreamGradient \<times> gradient \<Rightarrow> (UpstreamGradient \<times> gradient) option" where
  "grad_prepare step upstream t stateUpstreams l = (\<lambda>(stepUpstream, g).
     do {
       stateSlot \<leftarrow> idx_int (InStateVars step) l;
       stateVar \<leftarrow> stateSlot;
       row \<leftarrow> idx_int upstream l;
       u \<leftarrow> idx row t;
       su \<leftarrow> idx_int stateUpstreams l;
       let s = (case su of None \<Rightarrow> replicate (length (Vector stateVar)) 0 | Some v \<Rightarrow> v);
       let g1 = g(ref stateVar \<mapsto> replicate (length (Vector stateVar)) 0);
       inputSlot \<leftarrow> idx_int (step_Inputs step) l;
       input \<leftarrow> inputSlot;
       g2 \<leftarrow> (if \<not> Constant input g1 then
                do {
                  varSlot \<leftarrow> idx_int (InputVars step) l;
                  inputVar \<leftarrow> varSlot;
                  Some (g1(ref inputVar \<mapsto> replicate (length (Vector inputVar)) 0))
                }
              else Some g1);
       Some (stepUpstream\<lparr>up_Outputs := up_Outputs stepUpstream @ [u],
                          up_States := up_States stepUpstream @ [s]\<rparr>, g2)
     })"

definition grad_collect ::
  "BlockSeqFuncOutputStep \<Rightarrow> int \<Rightarrow> vec option list \<times> gradient
     \<Rightarrow> (vec option list \<times> gradient) option" where
  "grad_collect step l = (\<lambda>(stateUpstreams, g).
     do {
       stateSlot \<leftarrow> idx_int (InStateVars step) l;
       stateVar \<leftarrow> stateSlot;
       _ \<leftarrow> idx_int stateUpstreams l;
       let stateUpstreams1 = stateUpstreams[nat l := g (ref stateVar)];
       let g1 = g(ref stateVar := None);
       inputSlot \<leftarrow> idx_int (step_Inputs step) l;
       input \<leftarrow> inputSlot;
       if \<not> Constant input g1 then
         do {
           varSlot \<leftarrow> idx_int (InputVars step) l;
           inputVar \<leftarrow> varSlot;
           let upstream = (case g1 (ref inputVar) of None \<Rightarrow> [] | Some v \<Rightarrow> v);
           Some (stateUpstreams1, PropagateGradient input upstream (g1(ref inputVar := None)))
         }
       else Some (stateUpstreams1, g1)
     })"

text \<open>
  One pass of \<open>for t := len(r.Steps) - 1; t >= 0; t--\<close>: \<open>grad_lanes\<close> is the body once the
  step is at hand.
\<close>

definition grad_lanes ::
  "BlockSeqFuncOutputStep \<Rightarrow> vec list list \<Rightarrow> nat \<Rightarrow> vec option list \<times> gradient
     \<Rightarrow> (vec option list \<times> gradient) option" where
  "grad_lanes step upstream t = (\<lambda>(stateUpstreams, g).
     do {
       (stepUpstream, g1) \<leftarrow>
         loopUsedLanes (LaneToOut step) (grad_prepare step upstream t stateUpstreams)
           (\<lparr>up_States = [], up_Outputs = []\<rparr>, g);
       outputs \<leftarrow> step_Outputs step;
       let g2 = Gradient outputs stepUpstream g1;
       loopUsedLanes (LaneToOut step) (grad_collect step) (stateUpstreams, g2)
     })"

definition grad_step ::
  "BlockSeqFuncOutput \<Rightarrow> vec list list \<Rightarrow> nat \<Rightarrow> vec option list \<times> gradient
     \<Rightarrow> (vec option list \<times> gradient) option" where
  "grad_step r upstream t sg = idx (Steps r) t \<bind> (\<lambda>step. grad_lanes step upstream t sg)"

definition BlockSeqFuncOutput_Gradient ::
  "BlockSeqFuncOutput \<Rightarrow> vec list list \<Rightarrow> gradient \<Rightarrow> gradient option" where
  "BlockSeqFuncOutput_Gradient r upstream g =
     (let numLanes = length (PackedOut r) in
      if length upstream \<noteq> numLanes then None
      else if \<not> list_all2 (\<lambda>x p. length x = length p) upstream (PackedOut r) then None
      else do {
        (stateUpstreams, g1) \<leftarrow>
          foldM (grad_step r upstream) (rev [0..<length (Steps r)]) (replicate numLanes None, g);
        Some (fold (\<lambda>upstream g. case upstream of None \<Rightarrow> g
                       | Some v \<Rightarrow> PropagateGradient (out_StartState r) v g)
                stateUpstreams g1)
      })"

text \<open>
  Vocabulary for the statements about \<open>BatchSeqs\<close>: \<open>pos seqs t l\<close> is the number of lanes
  below \<open>l\<close> that are active at time \<open>t\<close> (their sequence has more than \<open>t\<close> elements), that is
  the position of lane \<open>l\<close> in the batch of time \<open>t\<close>; \<open>horizon seqs\<close> is the length of the
  longest sequence.
\<close>

definition pos :: "'a list list \<Rightarrow> nat \<Rightarrow> nat \<Rightarrow> nat" where
  "pos seqs t l = length (filter (\<lambda>j. t < length (seqs ! j)) [0..<l])"

definition horizon :: "'a list list \<Rightarrow> nat" where
  "horizon seqs = Max (insert 0 (length ` set seqs))"

text \<open>
  \<open>prev_state res t l\<close> is the vector the in-state variable of lane \<open>l\<close> ends up with at time
  \<open>t\<close>: the start state's output, or the state that step \<open>t - 1\<close> put out at the position
  its lane map gives for \<open>l\<close>.
\<close>

definition prev_state :: "BlockSeqFuncOutput \<Rightarrow> nat \<Rightarrow> nat \<Rightarrow> vec option" where
  "prev_state res t l =
     (if t > 0 then
        do {
          s \<leftarrow> idx (Steps res) (t - 1);
          outputs \<leftarrow> step_Outputs s;
          idx_int (States outputs) (lookup0 (LaneToOut s) (int l))
        }
      else Some (Output (out_StartState res)))"

text \<open>
  What the lane loop has built once the lanes below \<open>k\<close> are done, starting with the
  allocation counter at \<open>nxt\<close>; \<open>sv l\<close> is the incoming state of lane \<open>l\<close>.
\<close>

definition lanes_built ::
  "result list list \<Rightarrow> nat \<Rightarrow> (nat \<Rightarrow> vec) \<Rightarrow> nat \<Rightarrow> nat \<Rightarrow> BlockSeqFuncOutputStep \<Rightarrow> BlockInput
     \<Rightarrow> bool" where
  "lanes_built seqs t sv nxt k step input \<longleftrightarrow>
     length (in_Inputs input) = pos seqs t k \<and> length (in_States input) = pos seqs t k
     \<and> length (InStateVars step) = length seqs \<and> length (InputVars step) = length seqs
     \<and> length (step_Inputs step) = length seqs
     \<and> step_Outputs step = None
     \<and> fmdom' (LaneToOut step) = int ` {l. l < k \<and> t < length (seqs ! l)}
     \<and> (\<forall>l<length seqs. \<not> (l < k \<and> t < length (seqs ! l)) \<longrightarrow>
           InStateVars step ! l = None \<and> InputVars step ! l = None)
     \<and> (\<forall>l<k. t < length (seqs ! l) \<longrightarrow>
           fmlookup (LaneToOut step) (int l) = Some (int (pos seqs t l))
         \<and> step_Inputs step ! l = Some (seqs ! l ! t)
         \<and> InputVars step ! l = Some (in_Inputs input ! pos seqs t l)
         \<and> InStateVars step ! l = Some (in_States input ! pos seqs t l)
         \<and> in_Inputs input ! pos seqs t l
              = \<lparr>ref = nxt + 2 * pos seqs t l, Vector = Output (seqs ! l ! t)\<rparr>
         \<and> in_States input ! pos seqs t l
              = \<lparr>ref = nxt + 2 * pos seqs t l + 1, Vector = sv l\<rparr>)"

text \<open>
  The contract of a Block that the unroller relies on: \<open>Batch\<close> returns one output and one
  state per lane of its input.
\<close>

definition block_ok :: "Block \<Rightarrow> bool" where
  "block_ok r \<longleftrightarrow>
     (\<forall>input. length (in_Inputs input) = length (in_States input) \<longrightarrow>
        length (Outputs (Batch r input)) = length (in_Inputs input)
      \<and> length (States (Batch r input)) = length (in_States input))"

text \<open>
  The state of the unrolling after \<open>T\<close> timesteps, with the allocation counter at \<open>nxt0\<close>
  at the start: step \<open>t\<close> is the lane loop's step with the Block's output on the lanes'
  batch, every active lane's in-state is the one \<open>prev_state\<close> gives, and its output is
  entry \<open>t\<close> of its packed sequence.
\<close>

definition step_at :: "Block \<Rightarrow> result list list \<Rightarrow> nat \<Rightarrow> BlockSeqFuncOutput \<Rightarrow> nat \<Rightarrow> bool" where
  "step_at r seqs nxt0 res t \<longleftrightarrow>
     (\<exists>step0 input nxt sv.
        nxt0 \<le> nxt
      \<and> lanes_built seqs t sv nxt (length seqs) step0 input
      \<and> Steps res ! t = step0\<lparr>step_Outputs := Some (Batch r input)\<rparr>
      \<and> (\<forall>l<length seqs. t < length (seqs ! l) \<longrightarrow>
            prev_state res t l = Some (sv l)
          \<and> PackedOut res ! l ! t = Outputs (Batch r input) ! pos seqs t l))"

definition unrolled :: "Block \<Rightarrow> result list list \<Rightarrow> nat \<Rightarrow> nat \<Rightarrow> BlockSeqFuncOutput \<Rightarrow> bool" where
  "unrolled r seqs nxt0 T res \<longleftrightarrow>
     out_StartState res = StartState r
   \<and> length (Steps res) = T
   \<and> length (PackedOut res) = length seqs
   \<and> (\<forall>l<length seqs. length (PackedOut res ! l) = min T (length (seqs ! l)))
   \<and> (\<forall>t<T. step_at r seqs nxt0 res t)"

text \<open>
  \<open>BlockSeqFunc.Parameters\<close>: the Block's parameters if it is an \<open>sgd.Learner\<close>, nil
  otherwise.
\<close>

definition BlockSeqFunc_Parameters :: "Block \<Rightarrow> variable list" where
  "BlockSeqFunc_Parameters r = (case Learner r of Some ps \<Rightarrow> ps | None \<Rightarrow> [])"

section \<open>Bidirectional composer\<close>

text \<open>
  The interfaces \<open>ResultSeqs\<close> and \<open>SeqFunc\<close> as records of their methods. A sub-function
  may allocate variables and may panic, so \<open>BatchSeqs\<close> takes and returns the allocation
  counter and \<open>Gradient\<close> returns an option. The optional interfaces of a \<open>SeqFunc\<close>:
  \<open>sf_Learner\<close> is its \<open>Parameters()\<close> if it is an \<open>sgd.Learner\<close>, \<open>sf_Serializer\<close> its
  \<open>serializer.Serializer\<close> methods if it has them; \<open>sf_Type\<close> is what the verb \<open>%T\<close> prints
  for it. Byte slices are strings.
\<close>

record ResultSeqs =
  OutputSeqs :: "vec list list"
  rs_Gradient :: "vec list list \<Rightarrow> gradient \<Rightarrow> gradient option"

record Serializer =
  Serialize :: "string + string"
  SerializerType :: string

record SeqFunc =
  BatchSeqs :: "result list list \<Rightarrow> nat \<Rightarrow> (ResultSeqs \<times> nat) option"
  sf_Learner :: "variable list option"
  sf_Serializer :: "Serializer option"
  sf_Type :: string

record Bidirectional =
  Forward :: SeqFunc
  Backward :: SeqFunc
  Output_fn :: SeqFunc

record bidirectionalResult =
  ForwardOut :: ResultSeqs
  BackwardOut :: ResultSeqs
  Joined :: "variable list list"
  Out :: ResultSeqs

text \<open>
  \<open>reverseInputSeqs\<close> stores element \<open>j\<close> of each sequence \<open>s\<close> at index \<open>len(s) - (j + 1)\<close> of
  a new sequence of the same length.
\<close>

definition reverseInputSeqs :: "'a list list \<Rightarrow> 'a list list" where
  "reverseInputSeqs seqs = map (\<lambda>s. map (\<lambda>k. s ! (length s - (k + 1))) [0..<length s]) seqs"

text \<open>
  The inner loop of \<open>Bidirectional.BatchSeqs\<close> over the times of one lane: the joined
  vector is the forward entry followed by the backward entry at index
  \<open>len(forwSeq) - (time + 1)\<close>, held by a fresh variable.
\<close>

definition join_time ::
  "vec list \<Rightarrow> vec list \<Rightarrow> nat \<Rightarrow> variable list \<times> nat \<Rightarrow> (variable list \<times> nat) option" where
  "join_time forwSeq backSeq time = (\<lambda>(joinedSeq, nxt).
     do {
       backEntry \<leftarrow> idx_int backSeq (int (length forwSeq) - (int time + 1));
       let forwEntry = forwSeq ! time;
       let fullVec = forwEntry @ backEntry;
       Some (joinedSeq @ [\<lparr>ref = nxt, Vector = fullVec\<rparr>], Suc nxt)
     })"

definition join_lane ::
  "vec list list \<Rightarrow> vec list list \<Rightarrow> nat \<Rightarrow> variable list list \<times> nat
     \<Rightarrow> (variable list list \<times> nat) option" where
  "join_lane forwSeqs backSeqs lane = (\<lambda>(joinedVars, nxt).
     do {
       let forwSeq = forwSeqs ! lane;
       backSeq \<leftarrow> idx backSeqs lane;
       (joinedSeq, nxt') \<leftarrow> foldM (join_time forwSeq backSeq) [0..<length forwSeq] ([], nxt);
       if lane < length joinedVars then Some (joinedVars[lane := joinedSeq], nxt') else None
     })"

text \<open>
  For the statements: the joined variables of one lane, allocated from \<open>nxt\<close> on, and the
  allocation counter at which lane \<open>lane\<close> starts.
\<close>

definition joined_row :: "vec list \<Rightarrow> vec list \<Rightarrow> nat \<Rightarrow> nat \<Rightarrow> variable list" where
  "joined_row forwSeq backSeq nxt k =
     map (\<lambda>t. \<lparr>ref = nxt + t, Vector = forwSeq ! t @ backSeq ! (length forwSeq - (t + 1))\<rparr>) [0..<k]"

definition lane_start :: "vec list list \<Rightarrow> nat \<Rightarrow> nat \<Rightarrow> nat" where
  "lane_start forwSeqs nxt lane = nxt + sum_list (map length (take lane forwSeqs))"

text \<open>
  \<open>Bidirectional.BatchSeqs\<close>. The joined results handed to the output function are the
  joined variables themselves.
\<close>

definition Bidirectional_BatchSeqs ::
  "Bidirectional \<Rightarrow> result list list \<Rightarrow> nat \<Rightarrow> (bidirectionalResult \<times> nat) option" where
  "Bidirectional_BatchSeqs b seqs nxt =
     do {
       (forwardOut, n1) \<leftarrow> BatchSeqs (Forward b) seqs nxt;
       (backwardOut, n2) \<leftarrow> BatchSeqs (Backward b) (reverseInputSeqs seqs) n1;
       (joinedVars, n3) \<leftarrow>
         foldM (join_lane (OutputSeqs forwardOut) (OutputSeqs backwardOut))
           [0..<length (OutputSeqs forwardOut)] (replicate (length seqs) [], n2);
       let joinedResults = map (map var_result) joinedVars;
       (out, n4) \<leftarrow> BatchSeqs (Output_fn b) joinedResults n3;
       Some (\<lparr>ForwardOut = forwardOut, BackwardOut = backwardOut, Joined = joinedVars,
               Out = out\<rparr>, n4)
     }"

text \<open>\<open>seqOutputSize\<close>: the width of the first vector of the first non-empty sequence.\<close>

fun seqOutputSize :: "vec list list \<Rightarrow> nat" where
  "seqOutputSize [] = 0"
| "seqOutputSize (outSeq # seqs) =
     (if length outSeq > 0 then length (outSeq ! 0) else seqOutputSize seqs)"

text \<open>
  \<open>bidirectionalResult.Gradient\<close>. Reading a missing key of \<open>g\<close> gives nil, here the empty
  vector. The two slice expressions \<open>joinedUpstream[:forwLen]\<close> and
  \<open>joinedUpstream[forwLen:]\<close> together panic exactly when \<open>forwLen\<close> exceeds the length.
\<close>

definition lookup_vec :: "gradient \<Rightarrow> nat \<Rightarrow> vec" where
  "lookup_vec g k = (case g k of None \<Rightarrow> [] | Some v \<Rightarrow> v)"

definition zero_joined :: "variable list list \<Rightarrow> gradient \<Rightarrow> gradient" where
  "zero_joined joined g =
     fold (\<lambda>joinedSeq g.
             fold (\<lambda>joinedVar g. g(ref joinedVar \<mapsto> replicate (length (Vector joinedVar)) 0))
               joinedSeq g)
       joined g"

definition split_time ::
  "nat \<Rightarrow> variable list \<Rightarrow> nat \<Rightarrow> vec list \<times> vec list \<times> gradient
     \<Rightarrow> (vec list \<times> vec list \<times> gradient) option" where
  "split_time forwLen joinedSeq time = (\<lambda>(subForw, subBack, g).
     do {
       let joinedVar = joinedSeq ! time;
       let joinedUpstream = lookup_vec g (ref joinedVar);
       let g1 = g(ref joinedVar := None);
       if forwLen > length joinedUpstream then None
       else Some (subForw[time := take forwLen joinedUpstream],
                  subBack[length joinedSeq - (time + 1) := drop forwLen joinedUpstream],
                  g1)
     })"

definition split_lane ::
  "nat \<Rightarrow> variable list list \<Rightarrow> nat \<Rightarrow> vec list list \<times> vec list list \<times> gradient
     \<Rightarrow> (vec list list \<times> vec list list \<times> gradient) option" where
  "split_lane forwLen joined lane = (\<lambda>(forwUpstream, backUpstream, g).
     do {
       let joinedSeq = joined ! lane;
       (subForw, subBack, g1) \<leftarrow>
         foldM (split_time forwLen joinedSeq) [0..<length joinedSeq]
           (replicate (length joinedSeq) [], replicate (length joinedSeq) [], g);
       if lane < length forwUpstream
       then Some (forwUpstream[lane := subForw], backUpstream[lane := subBack], g1)
       else None
     })"

definition split_upstream ::
  "bidirectionalResult \<Rightarrow> nat \<Rightarrow> gradient \<Rightarrow> (vec list list \<times> vec list list \<times> gradient) option" where
  "split_upstream b numUpstream g =
     foldM (split_lane (seqOutputSize (OutputSeqs (ForwardOut b))) (Joined b))
       [0..<length (Joined b)]
       (replicate numUpstream [], replicate numUpstream [], g)"

definition bidirectionalResult_Gradient ::
  "bidirectionalResult \<Rightarrow> vec list list \<Rightarrow> gradient \<Rightarrow> gradient option" where
  "bidirectionalResult_Gradient b upstream g =
     do {
       let g1 = zero_joined (Joined b) g;
       g2 \<leftarrow> rs_Gradient (Out b) upstream g1;
       (forwUpstream, backUpstream, g3) \<leftarrow> split_upstream b (length upstream) g2;
       g4 \<leftarrow> rs_Gradient (ForwardOut b) forwUpstream g3;
       rs_Gradient (BackwardOut b) backUpstream g4
     }"

text \<open>
  \<open>Bidirectional.Parameters\<close> and \<open>Bidirectional.Serialize\<close>. \<open>serializeSlice\<close> stands for
  \<open>serializer.SerializeSlice\<close>.
\<close>

definition Bidirectional_Parameters :: "Bidirectional \<Rightarrow> variable list" where
  "Bidirectional_Parameters b =
     fold (\<lambda>x res. case sf_Learner x of Some ps \<Rightarrow> res @ ps | None \<Rightarrow> res)
       [Forward b, Backward b, Output_fn b] []"

fun serialize_loop :: "SeqFunc list \<Rightarrow> Serializer list \<Rightarrow> string + Serializer list" where
  "serialize_loop [] slice = Inr slice"
| "serialize_loop (x # xs) slice =
     (case sf_Serializer x of
        None \<Rightarrow> Inl (''type cannot be serialized: '' @ sf_Type x)
      | Some s \<Rightarrow> serialize_loop xs (slice @ [s]))"

definition Bidirectional_Serialize ::
  "(Serializer list \<Rightarrow> string + string) \<Rightarrow> Bidirectional \<Rightarrow> string + string" where
  "Bidirectional_Serialize serializeSlice b =
     (case serialize_loop [Forward b, Backward b, Output_fn b] [] of
        Inl err \<Rightarrow> Inl err
      | Inr slice \<Rightarrow> serializeSlice slice)"

text \<open>
  A \<open>BlockSeqFuncOutput\<close> as a \<open>ResultSeqs\<close> and a \<open>BlockSeqFunc\<close> as a \<open>SeqFunc\<close>. The type has
  the methods \<open>Parameters\<close> and \<open>Serialize\<close>, so it implements both optional interfaces;
  \<open>serializeBlock\<close> stands for what \<open>Serialize\<close> returns.
\<close>

definition BlockSeqFuncOutput_ResultSeqs :: "BlockSeqFuncOutput \<Rightarrow> ResultSeqs" where
  "BlockSeqFuncOutput_ResultSeqs r =
     \<lparr>OutputSeqs = PackedOut r, rs_Gradient = BlockSeqFuncOutput_Gradient r\<rparr>"

definition BlockSeqFunc :: "Block \<Rightarrow> (string + string) \<Rightarrow> SeqFunc" where
  "BlockSeqFunc r serializeBlock =
     \<lparr>BatchSeqs = (\<lambda>seqs nxt.
        map_option (\<lambda>(res, n). (BlockSeqFuncOutput_ResultSeqs res, n))
          (BlockSeqFunc_BatchSeqs r seqs nxt)),
      sf_Learner = Some (BlockSeqFunc_Parameters r),
      sf_Serializer = Some \<lparr>Serialize = serializeBlock,
         SerializerType = ''github.com/unixpickle/weakai/rnn.BlockSeqFunc''\<rparr>,
      sf_Type = ''*rnn.BlockSeqFunc''\<rparr>"

text \<open>
  The contracts of the collaborators about the keys of a gradient map. Propagation only
  accumulates into entries: a Block's gradient and a Result's \<open>PropagateGradient\<close> leave the
  key set as it is, and a sub-result's \<open>Gradient\<close> adds no key. Whether a raw input is
  constant depends only on the entries of variables that existed before the forward pass
  (identities below \<open>nxt\<close>).
\<close>

definition block_frame :: "Block \<Rightarrow> bool" where
  "block_frame r \<longleftrightarrow> (\<forall>input u g. dom (Gradient (Batch r input) u g) = dom g)"

definition result_frame :: "nat \<Rightarrow> result \<Rightarrow> bool" where
  "result_frame nxt x \<longleftrightarrow>
     (\<forall>u g. dom (PropagateGradient x u g) = dom g)
   \<and> (\<forall>g g'. dom g \<inter> {..<nxt} = dom g' \<inter> {..<nxt} \<longrightarrow> Constant x g = Constant x g')"

definition no_new_keys :: "ResultSeqs \<Rightarrow> bool" where
  "no_new_keys rs \<longleftrightarrow> (\<forall>u g g'. rs_Gradient rs u g = Some g' \<longrightarrow> dom g' \<subseteq> dom g)"


section \<open>Example values\<close>

text \<open>
  A small Block with state size 1: per lane the new state is the sum of the old state and
  of the input's components, the output is the input followed by the old state. Its
  gradient adds the upstream vectors to the entries of the input and state variables.
\<close>

definition demo_batch :: "BlockInput \<Rightarrow> BlockOutput" where
  "demo_batch inp =
     \<lparr>States = map (\<lambda>(st, x). [sum_list (Vector st) + sum_list (Vector x)])
                 (zip (in_States inp) (in_Inputs inp)),
      Outputs = map (\<lambda>(st, x). Vector x @ Vector st) (zip (in_States inp) (in_Inputs inp)),
      Gradient = (\<lambda>u g.
        fold (\<lambda>(st, v) g. add_to g (ref st) v) (zip (in_States inp) (up_States u))
          (fold (\<lambda>(x, v) g. add_to g (ref x) (take (length (Vector x)) v))
             (zip (in_Inputs inp) (up_Outputs u)) g))\<rparr>"

definition demo_block :: Block where
  "demo_block = \<lparr>StateSize = 1, StartState = var_result \<lparr>ref = 0, Vector = [0]\<rparr>,
      Batch = demo_batch, Learner = None\<rparr>"

text \<open>A block output and a session with three records, used to exercise the theorems.\<close>

definition demo_output :: "real \<Rightarrow> BlockOutput" where
  "demo_output x = \<lparr>States = [[x]], Outputs = [[x + 1]], Gradient = (\<lambda>u g. g)\<rparr>"

definition demo_step :: "real \<Rightarrow> seqPropStep" where
  "demo_step x = \<lparr>step_StartState = None, step_Output = demo_output x,
      InStates = [\<lparr>ref = 0, Vector = [x]\<rparr>],
      InSeqs = [\<lparr>Inputs = [[x]], sample_Outputs = [[x]]\<rparr>]\<rparr>"

definition demo_session :: "Block \<Rightarrow> seqProp" where
  "demo_session b = \<lparr>sp_Block = b, CostFunc = (\<lambda>d a. a),
      memory = [Some (demo_step 1), Some (demo_step 2), Some (demo_step 3)],
      memory_spare = []\<rparr>"

text \<open>
  A session of two records whose older record has three lanes, the middle one on its last
  input; the newer record holds the two lanes that go on. The Block output of the newer
  record adds 7 and 8 to the gradients of its two in-state variables.
\<close>

definition ragged_step :: seqPropStep where
  "ragged_step = \<lparr>step_StartState = None,
      step_Output = \<lparr>States = [[1], [3], [4]], Outputs = [[1], [3], [4]],
                      Gradient = (\<lambda>u g. g)\<rparr>,
      InStates = [\<lparr>ref = 1, Vector = [0]\<rparr>, \<lparr>ref = 3, Vector = [0]\<rparr>, \<lparr>ref = 5, Vector = [0]\<rparr>],
      InSeqs = [\<lparr>Inputs = [[1], [2]], sample_Outputs = [[1], [2]]\<rparr>,
                \<lparr>Inputs = [[3]], sample_Outputs = [[3]]\<rparr>,
                \<lparr>Inputs = [[4], [5], [6]], sample_Outputs = [[4], [5], [6]]\<rparr>]\<rparr>"

definition later_step :: seqPropStep where
  "later_step = \<lparr>step_StartState = None,
      step_Output = \<lparr>States = [[3], [9]], Outputs = [[2], [5]],
                      Gradient = (\<lambda>u g. add_to (add_to g 7 [7]) 9 [8])\<rparr>,
      InStates = [\<lparr>ref = 7, Vector = [1]\<rparr>, \<lparr>ref = 9, Vector = [4]\<rparr>],
      InSeqs = [\<lparr>Inputs = [[2]], sample_Outputs = [[2]]\<rparr>,
                \<lparr>Inputs = [[5], [6]], sample_Outputs = [[5], [6]]\<rparr>]\<rparr>"

definition ragged_session :: seqProp where
  "ragged_session = \<lparr>sp_Block = demo_block, CostFunc = (\<lambda>d a. a),
      memory = [Some ragged_step, Some later_step], memory_spare = []\<rparr>"

text \<open>A session without memory, a first batch, and a session after one step.\<close>

definition fresh_session :: seqProp where
  "fresh_session = \<lparr>sp_Block = demo_block, CostFunc = (\<lambda>d a. a), memory = [], memory_spare = []\<rparr>"

definition first_batch :: "Sample list" where
  "first_batch = [\<lparr>Inputs = [[1], [2]], sample_Outputs = [[1], [2]]\<rparr>,
                  \<lparr>Inputs = [], sample_Outputs = []\<rparr>,
                  \<lparr>Inputs = [[3]], sample_Outputs = [[3]]\<rparr>]"

definition second_session :: seqProp where
  "second_session = \<lparr>sp_Block = demo_block, CostFunc = (\<lambda>d a. a),
     memory = [Some \<lparr>step_StartState = Some (StartState demo_block),
                     step_Output = \<lparr>States = [[1], [3]], Outputs = [[1, 0], [3, 0]],
                                    Gradient = (\<lambda>u g. g)\<rparr>,
                     InStates = [\<lparr>ref = 1, Vector = [0]\<rparr>, \<lparr>ref = 3, Vector = [0]\<rparr>],
                     InSeqs = [\<lparr>Inputs = [[1], [2]], sample_Outputs = [[1], [2]]\<rparr>,
                               \<lparr>Inputs = [[3]], sample_Outputs = [[3]]\<rparr>]\<rparr>],
     memory_spare = []\<rparr>"

text \<open>
  The scenario of two lanes with sequence lengths 3 and 1. The raw inputs are variables
  (identities 10 to 13), the gradient map has entries for the first lane's inputs only.
\<close>

definition demo_seqs :: "result list list" where
  "demo_seqs = [[var_result \<lparr>ref = 10, Vector = [1]\<rparr>, var_result \<lparr>ref = 11, Vector = [2]\<rparr>,
                 var_result \<lparr>ref = 12, Vector = [3]\<rparr>],
                [var_result \<lparr>ref = 13, Vector = [4]\<rparr>]]"

definition demo_lanes :: "(int, int) fmap" where
  "demo_lanes = fmupd 2 1 (fmupd 0 0 fmempty)"

text \<open>
  A combiner that puts out its inputs unchanged and hands the upstream vectors back to
  them; it has neither parameters nor a serializer. A bidirectional composer of two
  unrollers of the demo block with this combiner.
\<close>

definition identity_fn :: SeqFunc where
  "identity_fn =
     \<lparr>BatchSeqs = (\<lambda>seqs nxt.
        Some (\<lparr>OutputSeqs = map (map Output) seqs,
                rs_Gradient = (\<lambda>upstream g.
                  Some (fold (\<lambda>(x, u) g. PropagateGradient x u g)
                          (concat (map2 zip seqs upstream)) g))\<rparr>, nxt)),
      sf_Learner = None, sf_Serializer = None, sf_Type = ''identity''\<rparr>"

definition demo_bidirectional :: Bidirectional where
  "demo_bidirectional =
     \<lparr>Forward = BlockSeqFunc demo_block (Inr ''block''),
      Backward = BlockSeqFunc (demo_block\<lparr>Learner := Some [\<lparr>ref = 1, Vector = [5]\<rparr>]\<rparr>) (Inr ''block''),
      Output_fn = identity_fn\<rparr>"

text \<open>
  A bidirectional result of one lane of two timesteps, forward and backward width 1. The
  combiner hands its upstream to the joined variables; the forward and backward results
  add the upstream they are given, flattened, to the entries of the variables 1 and 2.
\<close>

definition demo_result :: bidirectionalResult where
  "demo_result =
     \<lparr>ForwardOut = \<lparr>OutputSeqs = [[[1], [2]]],
        rs_Gradient = (\<lambda>u g. Some (add_to g 1 (concat (concat u))))\<rparr>,
      BackwardOut = \<lparr>OutputSeqs = [[[3], [4]]],
        rs_Gradient = (\<lambda>u g. Some (add_to g 2 (concat (concat u))))\<rparr>,
      Joined = [[\<lparr>ref = 20, Vector = [1, 4]\<rparr>, \<lparr>ref = 21, Vector = [2, 3]\<rparr>]],
      Out = \<lparr>OutputSeqs = [[[1, 4], [2, 3]]],
        rs_Gradient = (\<lambda>u g. Some (add_to (add_to g 20 (u ! 0 ! 0)) 21 (u ! 0 ! 1)))\<rparr>\<rparr>"

definition demo_gradient :: gradient where
  "demo_gradient = [0 \<mapsto> [0], 1 \<mapsto> [0, 0], 2 \<mapsto> [0, 0], 10 \<mapsto> [0], 11 \<mapsto> [0]]"


section \<open>Properties of the truncated session\<close>

lemma clear_slots_eq:
  "i \<le> rc \<Longrightarrow> n + rc \<le> length mem \<Longrightarrow>
   clear_slots mem n rc i = Some (take (n + i) mem @ replicate (rc - i) None @ drop (n + rc) mem)"
proof (induction mem n rc i rule: clear_slots.induct)
  case (1 mem n rc i)
  show ?case
  proof (cases "i < rc")
    case True
    have len: "i + n < length mem" using True 1(3) by simp
    have "clear_slots mem n rc i = clear_slots (mem[i + n := None]) n rc (Suc i)"
      using True len by (subst clear_slots.simps) simp
    also have "\<dots> = Some (take (n + Suc i) (mem[i + n := None]) @ replicate (rc - Suc i) None
        @ drop (n + rc) (mem[i + n := None]))"
      using 1(1)[OF True len] True 1(3) by simp
    also have "take (n + Suc i) (mem[i + n := None]) = take (n + i) mem @ [None]"
      using len by (simp add: take_Suc_conv_app_nth add.commute)
    also have "drop (n + rc) (mem[i + n := None]) = drop (n + rc) mem"
      using True by simp
    also have "(take (n + i) mem @ [None]) @ replicate (rc - Suc i) None @ drop (n + rc) mem
       = take (n + i) mem @ replicate (rc - i) None @ drop (n + rc) mem"
      using True by (simp add: replicate_Suc[symmetric] Suc_diff_Suc del: replicate_Suc)
    finally show ?thesis .
  next
    case False
    then have "i = rc" using 1(2) by simp
    then show ?thesis by (subst clear_slots.simps) simp
  qed
qed

lemma wrap64_id: "- (2 ^ 63) \<le> x \<Longrightarrow> x < 2 ^ 63 \<Longrightarrow> wrap64 x = x"
  unfolding wrap64_def by (simp add: signed_take_bit_int_eq_self)

lemma Truncate_eq:
  assumes n0: "0 \<le> n" and n63: "n < 2 ^ 63" and m63: "int (MemoryCount s) < 2 ^ 63"
  shows "Truncate s n =
     Some (if int (MemoryCount s) \<le> n then s
           else s\<lparr>memory := drop (MemoryCount s - nat n) (memory s),
                  memory_spare := replicate (MemoryCount s - nat n) None @ memory_spare s\<rparr>)"
proof (cases "int (MemoryCount s) \<le> n")
  case True
  have "wrap64 (int (MemoryCount s) - n) = int (MemoryCount s) - n"
    using n0 n63 m63 by (intro wrap64_id) auto
  then show ?thesis using True by (simp add: Truncate_def Let_def)
next
  case False
  define L where "L = MemoryCount s"
  define k where "k = nat n"
  have kL: "k < L" using False n0 by (simp add: k_def L_def)
  have w: "wrap64 (int L - n) = int L - n"
    using n0 n63 m63 by (intro wrap64_id) (auto simp: L_def)
  have rc: "nat (int L - n) = L - k" using n0 kL by (simp add: k_def)
  have len: "length (memory s) = L" by (simp add: L_def MemoryCount_def)
  have cp: "copy_slice (memory s) (drop (L - k) (memory s))
      = drop (L - k) (memory s) @ drop k (memory s)"
    using kL len by (simp add: copy_slice_def)
  have cl: "clear_slots (drop (L - k) (memory s) @ drop k (memory s)) k (L - k) 0
     = Some (drop (L - k) (memory s) @ replicate (L - k) None)"
    using kL len by (subst clear_slots_eq) auto
  show ?thesis
    using False n0 kL len w rc cp cl
    by (simp add: Truncate_def Let_def L_def[symmetric] k_def[symmetric])
qed

text \<open>
  Claim C7. For \<open>n \<ge> 0\<close> (a 64-bit value, as is the length of the memory), \<open>Truncate n\<close>
  returns normally; the memory afterwards is the newest \<open>min n (MemoryCount s)\<close> records in
  their order (the oldest are dropped from the front), the count is that minimum, the
  slots given up are nil in the backing array, nothing else of the session changes, a call
  with \<open>n \<ge> MemoryCount s\<close> changes nothing at all, and \<open>Truncate 0\<close> leaves the memory empty.
\<close>

theorem Truncate_keeps_newest:
  assumes n0: "0 \<le> n" and n63: "n < 2 ^ 63" and m63: "int (MemoryCount s) < 2 ^ 63"
  shows "\<exists>s'. Truncate s n = Some s'
     \<and> memory s' = drop (MemoryCount s - nat n) (memory s)
     \<and> MemoryCount s' = min (nat n) (MemoryCount s)
     \<and> memory_spare s' = replicate (MemoryCount s - MemoryCount s') None @ memory_spare s
     \<and> sp_Block s' = sp_Block s \<and> CostFunc s' = CostFunc s
     \<and> (int (MemoryCount s) \<le> n \<longrightarrow> s' = s)
     \<and> (n = 0 \<longrightarrow> memory s' = [] \<and> MemoryCount s' = 0)"
proof (cases "int (MemoryCount s) \<le> n")
  case True
  then show ?thesis
    using Truncate_eq [OF assms] n0 by (auto simp: MemoryCount_def min_def)
next
  case False
  then have "nat n < length (memory s)" using n0 by (simp add: MemoryCount_def)
  then show ?thesis
    using Truncate_eq [OF assms] False n0 by (auto simp: MemoryCount_def min_def)
qed

theorem Truncate_keeps_newest_witness:
  "(0::int) \<le> 1 \<and> (1::int) < 2 ^ 63 \<and> int (MemoryCount (demo_session demo_block)) < 2 ^ 63
   \<and> (\<exists>s'. Truncate (demo_session demo_block) 1 = Some s'
        \<and> memory s' = [Some (demo_step 3)] \<and> MemoryCount s' = 1
        \<and> memory_spare s' = [None, None])"
proof -
  have len: "MemoryCount (demo_session demo_block) = 3"
    by (simp add: demo_session_def MemoryCount_def)
  have mem: "drop 2 (memory (demo_session demo_block)) = [Some (demo_step 3)]"
    by (simp add: demo_session_def)
  have sp: "memory_spare (demo_session demo_block) = []"
    by (simp add: demo_session_def)
  from Truncate_keeps_newest [of 1 "demo_session demo_block"] len
  obtain s' where s': "Truncate (demo_session demo_block) 1 = Some s'"
    "memory s' = drop (3 - nat 1) (memory (demo_session demo_block))"
    "MemoryCount s' = min (nat 1) 3"
    "memory_spare s' = replicate (3 - MemoryCount s') None @ memory_spare (demo_session demo_block)"
    by auto
  have "memory s' = [Some (demo_step 3)]" using s'(2) mem by simp
  moreover have "MemoryCount s' = 1" using s'(3) by simp
  moreover have "memory_spare s' = [None, None]"
    using s'(4) sp \<open>MemoryCount s' = 1\<close> by (simp add: numeral_eq_Suc)
  ultimately show ?thesis using s'(1) len by auto
qed

text \<open>
  Claim C8. With an empty memory \<open>BackPropagate\<close> returns at once: the gradient map and the
  session are returned unchanged and no collaborator is called (the call log is empty),
  whatever the head and tail sizes. After \<open>Truncate 0\<close> on any session the memory is empty,
  so \<open>BackPropagate\<close> on the truncated session is this case: it returns normally and
  changes nothing.
\<close>

theorem BackPropagate_empty_noop:
  "BackPropagate (s\<lparr>memory := []\<rparr>) g headSize tailSize = Some (s\<lparr>memory := []\<rparr>, g, [])
   \<and> (int (MemoryCount s) < 2 ^ 63 \<longrightarrow>
        (\<exists>s'. Truncate s 0 = Some s' \<and> MemoryCount s' = 0
           \<and> BackPropagate s' g headSize tailSize = Some (s', g, [])))"
proof (intro conjI impI)
  show "BackPropagate (s\<lparr>memory := []\<rparr>) g headSize tailSize = Some (s\<lparr>memory := []\<rparr>, g, [])"
    by (simp add: BackPropagate_def MemoryCount_def)
next
  assume m: "int (MemoryCount s) < 2 ^ 63"
  have t: "Truncate s 0 = Some (if int (MemoryCount s) \<le> 0 then s
           else s\<lparr>memory := drop (MemoryCount s - nat 0) (memory s),
                  memory_spare := replicate (MemoryCount s - nat 0) None @ memory_spare s\<rparr>)"
    using Truncate_eq [of 0 s] m by simp
  show "\<exists>s'. Truncate s 0 = Some s' \<and> MemoryCount s' = 0
           \<and> BackPropagate s' g headSize tailSize = Some (s', g, [])"
    unfolding t by (auto simp: MemoryCount_def BackPropagate_def)
qed

theorem BackPropagate_empty_noop_witness:
  "int (MemoryCount (demo_session demo_block)) < 2 ^ 63
   \<and> MemoryCount (demo_session demo_block) = 3
   \<and> (\<exists>s'. Truncate (demo_session demo_block) 0 = Some s' \<and> MemoryCount s' = 0
           \<and> BackPropagate s' Map.empty 5 2 = Some (s', Map.empty, []))"
proof -
  have len: "MemoryCount (demo_session demo_block) = 3"
    by (simp add: demo_session_def MemoryCount_def)
  from BackPropagate_empty_noop [of "demo_session demo_block" Map.empty 5 2] len
  show ?thesis by simp
qed

subsection \<open>Realigning state gradients\<close>

lemma inject_total:
  "takeIdx + length (filter continued seqs) \<le> length outs \<Longrightarrow>
   \<exists>res. injectDiscontinued_from takeIdx seqs outs n = Some res"
proof (induction seqs arbitrary: takeIdx)
  case Nil
  then show ?case by simp
next
  case (Cons q seqs)
  show ?case
  proof (cases "continued q")
    case True
    then have "Suc takeIdx + length (filter continued seqs) \<le> length outs"
      using Cons.prems by simp
    from Cons.IH [OF this] obtain res where
      "injectDiscontinued_from (Suc takeIdx) seqs outs n = Some res" by blast
    moreover have "takeIdx < length outs" using Cons.prems True by simp
    ultimately show ?thesis using True by (simp add: continued_def idx_def)
  next
    case False
    then have "takeIdx + length (filter continued seqs) \<le> length outs"
      using Cons.prems by simp
    from Cons.IH [OF this] obtain res where
      "injectDiscontinued_from takeIdx seqs outs n = Some res" by blast
    then show ?thesis using False by (simp add: continued_def)
  qed
qed

lemma inject_panics:
  "takeIdx \<le> length outs \<Longrightarrow> length outs < takeIdx + length (filter continued seqs) \<Longrightarrow>
   injectDiscontinued_from takeIdx seqs outs n = None"
proof (induction seqs arbitrary: takeIdx)
  case Nil
  then show ?case by simp
next
  case (Cons q seqs)
  show ?case
  proof (cases "continued q")
    case True
    show ?thesis
    proof (cases "takeIdx < length outs")
      case False
      then show ?thesis using True by (simp add: continued_def idx_def)
    next
      case lt: True
      then have "Suc takeIdx \<le> length outs"
        and "length outs < Suc takeIdx + length (filter continued seqs)"
        using Cons.prems True by simp_all
      from Cons.IH [OF this] show ?thesis using True
        by (simp add: continued_def idx_def)
    qed
  next
    case False
    then have "length outs < takeIdx + length (filter continued seqs)"
      using Cons.prems by simp
    from Cons.IH [OF Cons.prems(1) this] show ?thesis using False by (simp add: continued_def)
  qed
qed

lemma inject_length:
  "injectDiscontinued_from takeIdx seqs outs n = Some res \<Longrightarrow> length res = length seqs"
  by (induction seqs arbitrary: takeIdx res)
     (auto simp: idx_def split: if_splits bind_splits)

lemma inject_nth:
  "injectDiscontinued_from takeIdx seqs outs n = Some res \<Longrightarrow> j < length seqs \<Longrightarrow>
   res ! j = (if continued (seqs ! j)
              then outs ! (takeIdx + length (filter continued (take j seqs)))
              else replicate n 0)"
proof (induction seqs arbitrary: takeIdx res j)
  case Nil
  then show ?case by simp
next
  case (Cons q seqs)
  show ?case
  proof (cases "continued q")
    case True
    from Cons.prems(1) True obtain r where
      r: "injectDiscontinued_from (Suc takeIdx) seqs outs n = Some r"
      and res: "res = outs ! takeIdx # r" and "takeIdx < length outs"
      by (auto simp: continued_def idx_def split: if_splits bind_splits)
    show ?thesis
    proof (cases j)
      case 0
      then show ?thesis using res True by simp
    next
      case (Suc k)
      then have "k < length seqs" using Cons.prems(2) by simp
      from Cons.IH [OF r this] show ?thesis using Suc res True by simp
    qed
  next
    case False
    from Cons.prems(1) False obtain r where
      r: "injectDiscontinued_from takeIdx seqs outs n = Some r"
      and res: "res = replicate n 0 # r"
      by (auto simp: continued_def split: if_splits bind_splits)
    show ?thesis
    proof (cases j)
      case 0
      then show ?thesis using res False by simp
    next
      case (Suc k)
      then have "k < length seqs" using Cons.prems(2) by simp
      from Cons.IH [OF r this] show ?thesis using Suc res False by simp
    qed
  qed
qed

lemma inject_surviving:
  "injectDiscontinued_from takeIdx seqs outs n = Some res \<Longrightarrow>
   map snd (filter (\<lambda>(q, v). continued q) (zip seqs res))
     = take (length (filter continued seqs)) (drop takeIdx outs)"
proof (induction seqs arbitrary: takeIdx res)
  case Nil
  then show ?case by simp
next
  case (Cons q seqs)
  show ?case
  proof (cases "continued q")
    case True
    from Cons.prems(1) True obtain r where
      r: "injectDiscontinued_from (Suc takeIdx) seqs outs n = Some r"
      and res: "res = outs ! takeIdx # r" and lt: "takeIdx < length outs"
      by (auto simp: continued_def idx_def split: if_splits bind_splits)
    have "drop takeIdx outs = outs ! takeIdx # drop (Suc takeIdx) outs"
      using lt by (simp add: Cons_nth_drop_Suc)
    then show ?thesis using Cons.IH [OF r] res True by simp
  next
    case False
    from Cons.prems(1) False obtain r where
      r: "injectDiscontinued_from takeIdx seqs outs n = Some r"
      and res: "res = replicate n 0 # r"
      by (auto simp: continued_def split: if_splits bind_splits)
    then show ?thesis using Cons.IH [OF r] False by simp
  qed
qed

lemma bp_body_logged:
  assumes run: "bp_body s lowIdx lowHead gis i upstream g = Some (upstream', g', c)"
    and i: "0 \<le> i"
  shows "\<exists>mem u1 g1. memory s ! nat i = Some mem \<and> c = BlockGradient (nat i) u1 g1
     \<and> up_States u1 = up_States upstream
     \<and> ((i > lowIdx \<or> gis) \<and> InStates mem \<noteq> [] \<longrightarrow>
           handover s i (stateGrads_after s mem u1 g1) = Some (up_States upstream'))"
  using run i unfolding bp_body_def Let_def stateGrads_after_def
  by (auto simp: bind_eq_Some_conv idx_int_def split: if_splits)

lemma linked_index:
  "linked s (BlockGradient i u ga) (BlockGradient j u' gb) \<Longrightarrow> i = Suc j"
  by (simp add: linked_def)

lemma linked_states:
  "linked s (BlockGradient i u ga) (BlockGradient j u' gb) \<Longrightarrow>
   memory s ! i = Some mem \<Longrightarrow> InStates mem \<noteq> [] \<Longrightarrow>
   handover s (int i) (stateGrads_after s mem u ga) = Some (up_States u')"
  by (auto simp: linked_def)

lemma linked_snoc:
  assumes "\<forall>k. Suc k < length cs \<longrightarrow> linked s (cs ! k) (cs ! Suc k)"
    and "cs \<noteq> [] \<longrightarrow> linked s (last cs) c"
  shows "\<forall>k. Suc k < length (cs @ [c]) \<longrightarrow> linked s ((cs @ [c]) ! k) ((cs @ [c]) ! Suc k)"
proof (intro allI impI)
  fix k assume k: "Suc k < length (cs @ [c])"
  show "linked s ((cs @ [c]) ! k) ((cs @ [c]) ! Suc k)"
  proof (cases "Suc k < length cs")
    case True
    then show ?thesis using assms(1) by (simp add: nth_append)
  next
    case False
    then have e: "Suc k = length cs" using k by simp
    then have "cs \<noteq> []" by auto
    moreover have "k = length cs - 1" using e by simp
    then have "(cs @ [c]) ! k = last cs"
      using e \<open>cs \<noteq> []\<close> by (simp add: nth_append last_conv_nth)
    moreover have "(cs @ [c]) ! Suc k = c" using e by simp
    ultimately show ?thesis using assms(2) by simp
  qed
qed

lemma bp_loop_linked:
  assumes low: "0 \<le> lowIdx"
  shows "bp_loop s lowIdx lowHead gis i upstream g calls = Some (upF, gF, callsF) \<Longrightarrow>
     \<forall>k. Suc k < length calls \<longrightarrow> linked s (calls ! k) (calls ! Suc k) \<Longrightarrow>
     calls \<noteq> [] \<and> lowIdx \<le> i \<longrightarrow>
       (\<exists>u ga. last calls = BlockGradient (nat (i + 1)) u ga
          \<and> (\<forall>mem. memory s ! nat (i + 1) = Some mem \<and> InStates mem \<noteq> [] \<longrightarrow>
                 handover s (i + 1) (stateGrads_after s mem u ga) = Some (up_States upstream))) \<Longrightarrow>
     \<forall>k. Suc k < length callsF \<longrightarrow> linked s (callsF ! k) (callsF ! Suc k)"
proof (induction "nat (i - lowIdx + 1)" arbitrary: i upstream g calls)
  case 0
  then have "\<not> i \<ge> lowIdx" by simp
  then have "bp_loop s lowIdx lowHead gis i upstream g calls = Some (upstream, g, calls)"
    by (subst bp_loop.simps) simp
  then show ?case using 0 by simp
next
  case (Suc n)
  then have ge: "i \<ge> lowIdx" by simp
  then have i0: "0 \<le> i" using low by simp
  from Suc.prems(1) ge obtain upstream' g' c where
    b: "bp_body s lowIdx lowHead gis i upstream g = Some (upstream', g', c)"
    and rest: "bp_loop s lowIdx lowHead gis (i - 1) upstream' g' (calls @ [c])
                 = Some (upF, gF, callsF)"
    by (subst (asm) bp_loop.simps) (auto split: option.splits)
  from bp_body_logged [OF b i0] obtain mem u1 g1 where
    m: "memory s ! nat i = Some mem" and c: "c = BlockGradient (nat i) u1 g1"
    and us: "up_States u1 = up_States upstream"
    and h: "(i > lowIdx \<or> gis) \<and> InStates mem \<noteq> [] \<longrightarrow>
           handover s i (stateGrads_after s mem u1 g1) = Some (up_States upstream')"
    by blast
  have n: "n = nat (i - 1 - lowIdx + 1)" using Suc.hyps(2) by simp
  have suc: "nat (i + 1) = Suc (nat i)" using i0 by simp
  have last: "calls \<noteq> [] \<longrightarrow> linked s (last calls) c"
  proof
    assume "calls \<noteq> []"
    with Suc.prems(3) ge obtain u ga where
      l: "last calls = BlockGradient (nat (i + 1)) u ga"
      and p: "\<forall>mem. memory s ! nat (i + 1) = Some mem \<and> InStates mem \<noteq> [] \<longrightarrow>
                 handover s (i + 1) (stateGrads_after s mem u ga) = Some (up_States upstream)"
      by blast
    have "int (Suc (nat i)) = i + 1" using i0 by simp
    then show "linked s (last calls) c"
      unfolding l c linked_def using p us suc by (simp add: add.commute)
  qed
  have good: "\<forall>k. Suc k < length (calls @ [c]) \<longrightarrow>
      linked s ((calls @ [c]) ! k) ((calls @ [c]) ! Suc k)"
    by (rule linked_snoc [OF Suc.prems(2) last])
  have pend: "calls @ [c] \<noteq> [] \<and> lowIdx \<le> i - 1 \<longrightarrow>
       (\<exists>u ga. last (calls @ [c]) = BlockGradient (nat (i - 1 + 1)) u ga
          \<and> (\<forall>mem. memory s ! nat (i - 1 + 1) = Some mem \<and> InStates mem \<noteq> [] \<longrightarrow>
                 handover s (i - 1 + 1) (stateGrads_after s mem u ga)
                   = Some (up_States upstream')))"
    using c m h by auto
  from Suc.hyps(1) [OF n rest good pend] show ?case .
qed

text \<open>
  Claim C3. Take a run of \<open>BackPropagate\<close> that returns, and two consecutive Block calls of
  its log: the call \<open>Gradient(u, ga)\<close> of record \<open>i\<close> and the next one, \<open>Gradient(u', gb)\<close>
  of record \<open>j\<close>, where record \<open>i\<close> has lanes. Then \<open>j\<close> is \<open>i - 1\<close>, and the upstream states
  \<open>u'\<close> handed to record \<open>i - 1\<close> are the state gradients \<open>stateGrads\<close> that record \<open>i\<close>'s
  call left in the gradient map, realigned: exactly one entry per lane of record \<open>i - 1\<close>, a
  zero vector of the Block's state size for each lane with fewer than two inputs left, and
  for the continuing lanes the entries of \<open>stateGrads\<close>, in their order.
\<close>

theorem BackPropagate_hands_realigned:
  fixes s :: seqProp and mem :: seqPropStep and u :: UpstreamGradient and ga :: gradient
  defines "stateGrads \<equiv>
     map (\<lambda>state. case Gradient (step_Output mem) u ga (ref state) of
                    Some x \<Rightarrow> x | None \<Rightarrow> replicate (StateSize (sp_Block s)) 0)
       (InStates mem)"
  assumes run: "BackPropagate s g headSize tailSize = Some (s', g', calls)"
    and k: "Suc k < length calls"
    and here: "calls ! k = BlockGradient i u ga"
    and there: "calls ! Suc k = BlockGradient j u' gb"
    and mem: "memory s ! i = Some mem" "InStates mem \<noteq> []"
    and prev: "memory s ! j = Some prev"
  shows "i = Suc j
     \<and> length (up_States u') = length (InSeqs prev)
     \<and> (\<forall>lane<length (InSeqs prev).
           up_States u' ! lane =
             (if continued (InSeqs prev ! lane)
              then stateGrads ! length (filter continued (take lane (InSeqs prev)))
              else replicate (StateSize (sp_Block s)) 0))
     \<and> map snd (filter (\<lambda>(q, v). continued q) (zip (InSeqs prev) (up_States u')))
          = take (length (filter continued (InSeqs prev))) stateGrads"
proof -
  have sg: "stateGrads = stateGrads_after s mem u ga"
    by (simp add: stateGrads_def stateGrads_after_def)
  have ne: "\<not> (headSize = 0 \<or> MemoryCount s = 0)"
    using run k by (auto simp: BackPropagate_def split: if_splits)
  define lowIdx0 where "lowIdx0 = wrap64 (int (MemoryCount s) - wrap64 (headSize + tailSize))"
  define lowIdx where "lowIdx = (if lowIdx0 < 0 then 0 else lowIdx0)"
  have low: "0 \<le> lowIdx" by (simp add: lowIdx_def)
  from run ne obtain lowHead gis upF gF cl n where
    loop: "bp_loop s lowIdx lowHead gis (int (MemoryCount s) - 1)
             \<lparr>up_States = [], up_Outputs = []\<rparr> g [] = Some (upF, gF, cl)"
    and calls: "calls = cl @ map StartStatePropagate [0..<n]"
    unfolding BackPropagate_def lowIdx_def lowIdx0_def Let_def
    by (fastforce simp: bind_eq_Some_conv split: if_splits)
  have good: "\<forall>k. Suc k < length cl \<longrightarrow> linked s (cl ! k) (cl ! Suc k)"
    by (rule bp_loop_linked [OF low loop]) simp_all
  have kl: "Suc k < length cl"
  proof (rule ccontr)
    assume "\<not> Suc k < length cl"
    then have "calls ! Suc k = map StartStatePropagate [0..<n] ! (Suc k - length cl)"
      unfolding calls by (simp add: nth_append)
    moreover have "Suc k - length cl < n" using k \<open>\<not> Suc k < length cl\<close> unfolding calls by simp
    ultimately show False using there by simp
  qed
  have "linked s (calls ! k) (calls ! Suc k)"
    using good kl unfolding calls by (simp add: nth_append)
  then have lk: "linked s (BlockGradient i u ga) (BlockGradient j u' gb)"
    unfolding here there .
  have ij: "i = Suc j" by (rule linked_index [OF lk])
  have h: "handover s (int i) stateGrads = Some (up_States u')"
    unfolding sg by (rule linked_states [OF lk mem])
  from h ij obtain prevSlot prev' where
    p: "idx_int (memory s) (int j) = Some prevSlot" "prevSlot = Some prev'"
    and inj: "injectDiscontinued_from 0 (InSeqs prev') stateGrads (StateSize (sp_Block s))
                = Some (up_States u')"
    unfolding handover_def injectDiscontinued_def by (auto simp: bind_eq_Some_conv)
  have "prev' = prev" using p prev by (auto simp: idx_int_def split: if_splits)
  with inj have inj': "injectDiscontinued_from 0 (InSeqs prev) stateGrads (StateSize (sp_Block s))
                = Some (up_States u')" by simp
  show ?thesis
    using ij inject_length [OF inj'] inject_nth [OF inj'] inject_surviving [OF inj']
    by simp
qed

theorem BackPropagate_hands_realigned_witness:
  "\<exists>s' g' calls u ga u' gb.
      BackPropagate ragged_session Map.empty 1 1 = Some (s', g', calls)
    \<and> Suc 0 < length calls
    \<and> calls ! 0 = BlockGradient 1 u ga \<and> calls ! Suc 0 = BlockGradient 0 u' gb
    \<and> memory ragged_session ! 1 = Some later_step \<and> InStates later_step \<noteq> []
    \<and> memory ragged_session ! 0 = Some ragged_step
    \<and> length (up_States u') = length (InSeqs ragged_step)
    \<and> up_States u' ! 1 = replicate (StateSize (sp_Block ragged_session)) 0
    \<and> up_States u' = [[7], [0], [8]]"
proof -
  have body1: "bp_body ragged_session 0 1 False 1 \<lparr>up_States = [], up_Outputs = []\<rparr> Map.empty
      = Some (\<lparr>up_States = [[7], [0], [8]], up_Outputs = [[2], [5]]\<rparr>, Map.empty,
              BlockGradient 1 \<lparr>up_States = [], up_Outputs = [[2], [5]]\<rparr> [7 \<mapsto> [0], 9 \<mapsto> [0]])"
    by (simp add: bp_body_def ragged_session_def later_step_def ragged_step_def idx_int_def
        idx_def demo_block_def add_to_def handover_def injectDiscontinued_def Let_def)
  have body0: "bp_body ragged_session 0 1 False 0
        \<lparr>up_States = [[7], [0], [8]], up_Outputs = [[2], [5]]\<rparr> Map.empty
      = Some (\<lparr>up_States = [[7], [0], [8]], up_Outputs = []\<rparr>, Map.empty,
              BlockGradient 0 \<lparr>up_States = [[7], [0], [8]], up_Outputs = []\<rparr> Map.empty)"
    by (simp add: bp_body_def ragged_session_def ragged_step_def idx_int_def Let_def)
  have loop: "bp_loop ragged_session 0 1 False 1 \<lparr>up_States = [], up_Outputs = []\<rparr> Map.empty []
      = Some (\<lparr>up_States = [[7], [0], [8]], up_Outputs = []\<rparr>, Map.empty,
          [BlockGradient 1 \<lparr>up_States = [], up_Outputs = [[2], [5]]\<rparr> [7 \<mapsto> [0], 9 \<mapsto> [0]],
           BlockGradient 0 \<lparr>up_States = [[7], [0], [8]], up_Outputs = []\<rparr> Map.empty])"
    apply (subst bp_loop.simps)
    apply (simp add: body1)
    apply (subst bp_loop.simps)
    apply (simp add: body0)
    apply (subst bp_loop.simps)
    apply simp
    done
  have mc: "MemoryCount ragged_session = 2"
    by (simp add: MemoryCount_def ragged_session_def)
  have low: "idx_int (memory ragged_session) 0 = Some (Some ragged_step)"
    by (simp add: ragged_session_def idx_int_def)
  have gis: "step_StartState ragged_step = None" by (simp add: ragged_step_def)
  have w: "wrap64 0 = 0" "wrap64 1 = 1" "wrap64 2 = 2" by (simp_all add: wrap64_id)
  have run: "BackPropagate ragged_session Map.empty 1 1 = Some (ragged_session, Map.empty,
          [BlockGradient 1 \<lparr>up_States = [], up_Outputs = [[2], [5]]\<rparr> [7 \<mapsto> [0], 9 \<mapsto> [0]],
           BlockGradient 0 \<lparr>up_States = [[7], [0], [8]], up_Outputs = []\<rparr> Map.empty])"
    unfolding BackPropagate_def mc Let_def by (simp add: w low gis loop)
  have m1: "memory ragged_session ! 1 = Some later_step"
    and m0: "memory ragged_session ! 0 = Some ragged_step"
    by (simp_all add: ragged_session_def)
  have ne: "InStates later_step \<noteq> []" by (simp add: later_step_def)
  have l1: "InSeqs ragged_step ! 1 = \<lparr>Inputs = [[3]], sample_Outputs = [[3]]\<rparr>"
    "1 < length (InSeqs ragged_step)"
    by (simp_all add: ragged_step_def)
  from BackPropagate_hands_realigned [where k = 0 and i = 1 and j = 0
        and mem = later_step and prev = ragged_step
        and u = "\<lparr>up_States = [], up_Outputs = [[2], [5]]\<rparr>" and ga = "[7 \<mapsto> [0], 9 \<mapsto> [0]]"
        and u' = "\<lparr>up_States = [[7], [0], [8]], up_Outputs = []\<rparr>" and gb = Map.empty,
        OF run _ _ _ m1 ne m0]
  have len: "length (up_States \<lparr>up_States = [[7], [0], [8::real]], up_Outputs = []\<rparr>)
      = length (InSeqs ragged_step)"
    and nth: "\<forall>lane<length (InSeqs ragged_step).
      up_States \<lparr>up_States = [[7], [0], [8::real]], up_Outputs = []\<rparr> ! lane =
        (if continued (InSeqs ragged_step ! lane)
         then stateGrads_after ragged_session later_step
                \<lparr>up_States = [], up_Outputs = [[2], [5]]\<rparr> [7 \<mapsto> [0], 9 \<mapsto> [0]]
              ! length (filter continued (take lane (InSeqs ragged_step)))
         else replicate (StateSize (sp_Block ragged_session)) 0)"
    by (simp_all add: stateGrads_after_def)
  from nth [rule_format, of 1] l1
  have th: "length (up_States \<lparr>up_States = [[7], [0], [8::real]], up_Outputs = []\<rparr>)
      = length (InSeqs ragged_step)
    \<and> up_States \<lparr>up_States = [[7], [0], [8::real]], up_Outputs = []\<rparr> ! 1
      = replicate (StateSize (sp_Block ragged_session)) 0"
    using len by (simp add: continued_def)
  show ?thesis using run m1 m0 ne th by simp
qed

subsection \<open>TimeStep\<close>

lemma removeEmpty_filter: "removeEmpty seqs = filter (\<lambda>q. Inputs q \<noteq> []) seqs"
  by (induction seqs) auto

lemma removeFirst_eq:
  "list_all sample_ok seqs \<Longrightarrow>
   removeFirst seqs = Some (map tail_sample (filter (\<lambda>q. length (Inputs q) \<noteq> 1) seqs))"
  by (induction seqs) (auto simp: sample_ok_def tail_sample_def)

lemma headInput_loop_total:
  "list_all sample_ok seqs \<Longrightarrow> lane + length seqs \<le> length lastStates \<Longrightarrow>
   \<exists>input'. headInput_loop lane seqs lastStates input nxt = Some (input', nxt + 2 * length seqs)
      \<and> length (in_States input') = length (in_States input) + length seqs
      \<and> length (in_Inputs input') = length (in_Inputs input) + length seqs"
proof (induction seqs arbitrary: lane input nxt)
  case Nil
  then show ?case by simp
next
  case (Cons q seqs)
  have a: "list_all sample_ok seqs" and b: "Suc lane + length seqs \<le> length lastStates"
    using Cons.prems by simp_all
  have q: "Inputs q \<noteq> []" and l: "lane < length lastStates"
    using Cons.prems by (simp_all add: sample_ok_def)
  define input1 where "input1 = input\<lparr>in_Inputs := in_Inputs input @ [\<lparr>ref = nxt, Vector = Inputs q ! 0\<rparr>],
      in_States := in_States input @ [\<lparr>ref = Suc nxt, Vector = lastStates ! lane\<rparr>]\<rparr>"
  have step: "headInput_loop lane (q # seqs) lastStates input nxt
      = headInput_loop (Suc lane) seqs lastStates input1 (Suc (Suc nxt))"
    using q l by (simp add: idx_def Let_def input1_def)
  from Cons.IH [OF a b, of input1 "Suc (Suc nxt)"] obtain input' where
    "headInput_loop (Suc lane) seqs lastStates input1 (Suc (Suc nxt))
       = Some (input', Suc (Suc nxt) + 2 * length seqs)"
    "length (in_States input') = length (in_States input1) + length seqs"
    "length (in_Inputs input') = length (in_Inputs input1) + length seqs"
    by blast
  then show ?case unfolding step by (simp add: input1_def)
qed

lemma headInput_total:
  assumes "list_all sample_ok inSeqs" and "lanes_match s inSeqs"
  shows "\<exists>input. headInput s inSeqs nxt = Some (input, nxt + 2 * length inSeqs)
     \<and> length (in_States input) = length inSeqs"
proof (cases "MemoryCount s = 0")
  case True
  from headInput_loop_total [OF assms(1), of 0 "replicate (length inSeqs) (Output (StartState (sp_Block s)))"
      "\<lparr>in_States = [], in_Inputs = []\<rparr>" nxt]
  show ?thesis using True by (auto simp: headInput_def)
next
  case False
  then have ne: "memory s \<noteq> []" by (simp add: MemoryCount_def)
  from assms(2) False obtain lastBlock ls where
    lb: "last (memory s) = Some lastBlock"
    and fc: "filterContinued (InSeqs lastBlock) (States (step_Output lastBlock)) = Some ls"
    and len: "length ls = length inSeqs"
    by (auto simp: lanes_match_def split: option.splits)
  have i: "idx (memory s) (length (memory s) - 1) = Some (Some lastBlock)"
    using ne lb by (simp add: idx_def last_conv_nth)
  from headInput_loop_total [OF assms(1), of 0 ls "\<lparr>in_States = [], in_Inputs = []\<rparr>" nxt] len
  show ?thesis using False i fc len by (auto simp: headInput_def)
qed

text \<open>
  Claim C6, as amended. Let \<open>inSeqs\<close> be the batch after the removal of the sequences with no
  input, which happens only when the memory is empty. If \<open>inSeqs\<close> is empty, \<open>TimeStep\<close>
  returns nil and the session is unchanged (no record is appended). If it is not empty, no
  sequence makes the call panic and the lanes match the newest record, then exactly one
  record is appended; the record holds the Block's start state exactly when the memory was
  empty before, its sequences are \<open>inSeqs\<close>, and the returned batch is \<open>inSeqs\<close> with every
  sequence of exactly one input left out and the first input and target of the others
  removed.
\<close>

theorem TimeStep_appends_record:
  fixes s :: seqProp and inSeqs0 :: "Sample list" and nxt :: nat and grow :: "nat \<Rightarrow> nat"
  defines "inSeqs \<equiv> (if MemoryCount s = 0 then filter (\<lambda>q. Inputs q \<noteq> []) inSeqs0 else inSeqs0)"
  shows "(inSeqs = [] \<longrightarrow> TimeStep grow s inSeqs0 nxt = Some (s, [], nxt))
   \<and> (inSeqs \<noteq> [] \<and> list_all sample_ok inSeqs \<and> lanes_match s inSeqs \<longrightarrow>
        (\<exists>step nxt'. TimeStep grow s inSeqs0 nxt =
              Some (s\<lparr>memory := memory s @ [Some step],
                      memory_spare := (if memory_spare s = []
                                       then replicate (grow (length (memory s))) None
                                       else drop 1 (memory_spare s))\<rparr>,
                    map tail_sample (filter (\<lambda>q. length (Inputs q) \<noteq> 1) inSeqs), nxt')
           \<and> step_StartState step =
                (if MemoryCount s = 0 then Some (StartState (sp_Block s)) else None)
           \<and> InSeqs step = inSeqs))"
proof (intro conjI impI)
  assume "inSeqs = []"
  then show "TimeStep grow s inSeqs0 nxt = Some (s, [], nxt)"
    by (auto simp: TimeStep_def inSeqs_def removeEmpty_filter Let_def split: if_splits)
next
  assume a: "inSeqs \<noteq> [] \<and> list_all sample_ok inSeqs \<and> lanes_match s inSeqs"
  from headInput_total [of inSeqs s nxt] a obtain input where
    h: "headInput s inSeqs nxt = Some (input, nxt + 2 * length inSeqs)" by auto
  have r: "removeFirst inSeqs = Some (map tail_sample (filter (\<lambda>q. length (Inputs q) \<noteq> 1) inSeqs))"
    using a removeFirst_eq by simp
  have e: "(if MemoryCount s = 0 then removeEmpty inSeqs0 else inSeqs0) = inSeqs"
    by (simp add: inSeqs_def removeEmpty_filter)
  show "\<exists>step nxt'. TimeStep grow s inSeqs0 nxt =
              Some (s\<lparr>memory := memory s @ [Some step],
                      memory_spare := (if memory_spare s = []
                                       then replicate (grow (length (memory s))) None
                                       else drop 1 (memory_spare s))\<rparr>,
                    map tail_sample (filter (\<lambda>q. length (Inputs q) \<noteq> 1) inSeqs), nxt')
           \<and> step_StartState step =
                (if MemoryCount s = 0 then Some (StartState (sp_Block s)) else None)
           \<and> InSeqs step = inSeqs"
    using a h r unfolding TimeStep_def e Let_def append_memory_def
    by (cases "MemoryCount s = 0") auto
qed


text \<open>
  The claim as stated fails on a first call whose batch holds only a sequence without
  inputs: the batch is not empty, and no record is appended.
\<close>

theorem TimeStep_empty_batch_counterexample:
  "[\<lparr>Inputs = [], sample_Outputs = []\<rparr>] \<noteq> []
   \<and> MemoryCount fresh_session = 0
   \<and> TimeStep (\<lambda>n. n - 1) fresh_session [\<lparr>Inputs = [], sample_Outputs = []\<rparr>] 0 = Some (fresh_session, [], 0)"
  by (simp add: TimeStep_def fresh_session_def MemoryCount_def)

theorem TimeStep_appends_record_witness:
  "(\<exists>step nxt'. TimeStep (\<lambda>n. n - 1) fresh_session first_batch 0 =
        Some (fresh_session\<lparr>memory := [Some step], memory_spare := []\<rparr>,
              [\<lparr>Inputs = [[2]], sample_Outputs = [[2]]\<rparr>], nxt')
      \<and> step_StartState step = Some (StartState demo_block)
      \<and> InSeqs step = [\<lparr>Inputs = [[1], [2]], sample_Outputs = [[1], [2]]\<rparr>,
                        \<lparr>Inputs = [[3]], sample_Outputs = [[3]]\<rparr>])
   \<and> MemoryCount second_session = 1
   \<and> (\<exists>step nxt'. TimeStep (\<lambda>n. n - 1) second_session [\<lparr>Inputs = [[2]], sample_Outputs = [[2]]\<rparr>] 4 =
        Some (second_session\<lparr>memory := memory second_session @ [Some step],
                 memory_spare := []\<rparr>, [], nxt')
      \<and> step_StartState step = None
      \<and> InSeqs step = [\<lparr>Inputs = [[2]], sample_Outputs = [[2]]\<rparr>])"
proof -
  have m0: "MemoryCount fresh_session = 0" by (simp add: fresh_session_def MemoryCount_def)
  have f: "filter (\<lambda>q. Inputs q \<noteq> []) first_batch =
      [\<lparr>Inputs = [[1], [2]], sample_Outputs = [[1], [2]]\<rparr>, \<lparr>Inputs = [[3]], sample_Outputs = [[3]]\<rparr>]"
    by (simp add: first_batch_def)
  have ok: "list_all sample_ok [\<lparr>Inputs = [[1], [2]], sample_Outputs = [[1], [2]]\<rparr>,
       \<lparr>Inputs = [[3]], sample_Outputs = [[3]::vec]\<rparr>]"
    by (simp add: sample_ok_def)
  have lm: "lanes_match fresh_session xs" for xs by (simp add: lanes_match_def m0)
  have sp: "memory_spare fresh_session = []" "memory fresh_session = []"
    "sp_Block fresh_session = demo_block"
    by (simp_all add: fresh_session_def)
  have one: "\<exists>step nxt'. TimeStep (\<lambda>n. n - 1) fresh_session first_batch 0 =
        Some (fresh_session\<lparr>memory := [Some step], memory_spare := []\<rparr>,
              [\<lparr>Inputs = [[2]], sample_Outputs = [[2]]\<rparr>], nxt')
      \<and> step_StartState step = Some (StartState demo_block)
      \<and> InSeqs step = [\<lparr>Inputs = [[1], [2]], sample_Outputs = [[1], [2]]\<rparr>,
                        \<lparr>Inputs = [[3]], sample_Outputs = [[3]]\<rparr>]"
    using TimeStep_appends_record [of fresh_session first_batch "\<lambda>n. n - 1" 0] ok lm
    by (simp add: m0 f sp tail_sample_def)
  have m1: "MemoryCount second_session = 1" by (simp add: second_session_def MemoryCount_def)
  have ok2: "list_all sample_ok [\<lparr>Inputs = [[2]], sample_Outputs = [[2]::vec]\<rparr>]"
    by (simp add: sample_ok_def)
  have lm2: "lanes_match second_session [\<lparr>Inputs = [[2]], sample_Outputs = [[2]]\<rparr>]"
    by (simp add: lanes_match_def m1 second_session_def filterContinued_def idx_def)
  have sp2: "memory_spare second_session = []" "length (memory second_session) = 1"
    by (simp_all add: second_session_def)
  have two: "\<exists>step nxt'. TimeStep (\<lambda>n. n - 1) second_session [\<lparr>Inputs = [[2]], sample_Outputs = [[2]]\<rparr>] 4 =
        Some (second_session\<lparr>memory := memory second_session @ [Some step],
                 memory_spare := []\<rparr>, [], nxt')
      \<and> step_StartState step = None
      \<and> InSeqs step = [\<lparr>Inputs = [[2]], sample_Outputs = [[2]]\<rparr>]"
    using TimeStep_appends_record [of second_session "[\<lparr>Inputs = [[2]], sample_Outputs = [[2]]\<rparr>]"
        "\<lambda>n. n - 1" 4]
      ok2 lm2
    by (simp add: m1 sp2)
  show ?thesis using one m1 two by blast
qed

section \<open>Properties of the sequence unroller\<close>

subsection \<open>loopUsedLanes\<close>

lemma sorted_list_of_set_least:
  assumes "finite S" and "\<forall>x\<in>S. a < x"
  shows "sorted_list_of_set (insert a S) = a # sorted_list_of_set S"
proof -
  have "a \<notin> S" using assms(2) by auto
  then have "sorted_list_of_set (insert a S) = insort a (sorted_list_of_set S)"
    using assms(1) by simp
  also have "\<dots> = a # sorted_list_of_set S"
    using assms by (intro insort_is_Cons) (auto simp: less_imp_le)
  finally show ?thesis .
qed

lemma loopUsedLanes_from_zero: "loopUsedLanes_from m f lane 0 s = Some s"
  by (subst loopUsedLanes_from.simps) simp

lemma loopUsedLanes_from_sorted:
  fixes m :: "(int, int) fmap"
  assumes keys: "\<forall>x\<in>fmdom' m. x < 2 ^ 63"
  shows "0 \<le> lane \<Longrightarrow> \<forall>x\<in>fmdom' m. x < lane + int n \<Longrightarrow>
     loopUsedLanes_from m f lane (int (card {x \<in> fmdom' m. lane \<le> x})) s
       = foldM f (sorted_list_of_set {x \<in> fmdom' m. lane \<le> x}) s"
proof (induction n arbitrary: lane s)
  case 0
  then have e: "{x \<in> fmdom' m. lane \<le> x} = {}" by auto
  show ?case unfolding e by (simp add: loopUsedLanes_from_zero)
next
  case (Suc n)
  define S where "S = {x \<in> fmdom' m. lane \<le> x}"
  define S' where "S' = {x \<in> fmdom' m. lane + 1 \<le> x}"
  have fin: "finite S" "finite S'" by (simp_all add: S_def S'_def)
  show ?case
  proof (cases "S = {}")
    case True
    show ?thesis unfolding S_def [symmetric] True by (simp add: loopUsedLanes_from_zero)
  next
    case False
    then have kpos: "0 < int (card S)" using fin by (simp add: card_gt_0_iff)
    show ?thesis
    proof (cases "lane \<in> fmdom' m")
      case True
      then have look: "fmlookup m lane \<noteq> None" by (simp add: fmdom'_alt_def fmlookup_dom_iff) 
      have S_ins: "S = insert lane S'" using True by (auto simp: S_def S'_def)
      have notin: "lane \<notin> S'" by (simp add: S'_def)
      have card: "int (card S) - 1 = int (card S')" using S_ins notin fin by simp
      have sorted: "sorted_list_of_set S = lane # sorted_list_of_set S'"
        unfolding S_ins using fin by (intro sorted_list_of_set_least) (auto simp: S'_def)
      have rest: "loopUsedLanes_from m f (wrap64 (lane + 1)) (int (card S')) s'
          = foldM f (sorted_list_of_set S') s'" for s'
      proof (cases "lane + 1 < 2 ^ 63")
        case lt: True
        then have w: "wrap64 (lane + 1) = lane + 1" using Suc.prems(1) by (intro wrap64_id) auto
        have "\<forall>x\<in>fmdom' m. x < lane + 1 + int n" using Suc.prems(2) by auto
        from Suc.IH [of "lane + 1" s', OF _ this] Suc.prems(1)
        show ?thesis unfolding w S'_def by simp
      next
        case False
        then have e: "S' = {}" using keys by (auto simp: S'_def)
        show ?thesis unfolding e by (simp add: loopUsedLanes_from_zero)
      qed
      have "loopUsedLanes_from m f lane (int (card S)) s
          = f lane s \<bind> loopUsedLanes_from m f (wrap64 (lane + 1)) (int (card S) - 1)"
        using kpos look by (subst loopUsedLanes_from.simps) simp
      also have "\<dots> = f lane s \<bind> foldM f (sorted_list_of_set S')"
        unfolding card using rest by (cases "f lane s") simp_all
      finally show ?thesis unfolding S_def [symmetric] sorted by simp
    next
      case notkey: False
      then have look: "fmlookup m lane = None" by (simp add: fmdom'_alt_def fmlookup_dom_iff)
      have S_eq: "S = S'" using notkey
        by (auto simp: S_def S'_def) (metis not_less zless_add1_eq)
      obtain x where x: "x \<in> fmdom' m" "lane \<le> x" using False S_def by auto
      then have "lane \<noteq> x" using notkey by auto
      then have lt: "lane + 1 < 2 ^ 63" using x keys by fastforce
      then have w: "wrap64 (lane + 1) = lane + 1" using Suc.prems(1) by (intro wrap64_id) auto
      have "\<forall>x\<in>fmdom' m. x < lane + 1 + int n" using Suc.prems(2) by auto
      from Suc.IH [of "lane + 1" s, OF _ this] Suc.prems(1)
      have rest: "loopUsedLanes_from m f (lane + 1) (int (card S')) s
          = foldM f (sorted_list_of_set S') s" unfolding S'_def by simp
      have "loopUsedLanes_from m f lane (int (card S)) s
          = loopUsedLanes_from m f (wrap64 (lane + 1)) (int (card S)) s"
        using kpos look by (subst loopUsedLanes_from.simps) simp
      then show ?thesis unfolding S_def [symmetric] using rest w S_eq by simp
    qed
  qed
qed

lemma loopUsedLanes_sorted:
  fixes m :: "(int, int) fmap"
  assumes keys: "\<forall>x\<in>fmdom' m. 0 \<le> x \<and> x < 2 ^ 63"
  shows "loopUsedLanes m f s = foldM f (sorted_list_of_set (fmdom' m)) s"
proof -
  have all: "{x \<in> fmdom' m. 0 \<le> x} = fmdom' m" using keys by auto
  have bound: "\<forall>x\<in>fmdom' m. x < 0 + int (nat (2 ^ 63))" using keys by auto
  have k: "\<forall>x\<in>fmdom' m. x < 2 ^ 63" using keys by auto
  have c: "fcard (fmdom m) = card (fmdom' m)"
    by (simp add: fcard.rep_eq fmdom'_alt_def)
  from loopUsedLanes_from_sorted [OF k, of 0 "nat (2 ^ 63)" f s, OF _ bound]
  show ?thesis unfolding all loopUsedLanes_def c by simp
qed

text \<open>
  Claim C10. When every key of the map is a non-negative 64-bit integer, \<open>loopUsedLanes\<close>
  runs the callback on the keys in strictly increasing order, once per key and on nothing
  else (up to the first callback that panics); in particular it returns. Hence one pass of
  \<open>BlockSeqFuncOutput.Gradient\<close> over a step with such a lane map runs its per-lane
  operations in increasing lane order, before and after the Block's own gradient: the
  run is a function of the map's keys, whatever order Go would iterate the map in.
\<close>

theorem loopUsedLanes_increasing:
  fixes m :: "(int, int) fmap"
  assumes keys: "\<forall>x\<in>fmdom' m. 0 \<le> x \<and> x < 2 ^ 63"
  defines "lanes \<equiv> sorted_list_of_set (fmdom' m)"
  shows "sorted_wrt (<) lanes \<and> set lanes = fmdom' m
     \<and> loopUsedLanes m f s = foldM f lanes s
     \<and> grad_lanes (step\<lparr>LaneToOut := m\<rparr>) upstream t (stateUpstreams, g) =
         do {
           (stepUpstream, g1) \<leftarrow>
             foldM (grad_prepare (step\<lparr>LaneToOut := m\<rparr>) upstream t stateUpstreams) lanes
               (\<lparr>up_States = [], up_Outputs = []\<rparr>, g);
           outputs \<leftarrow> step_Outputs step;
           foldM (grad_collect (step\<lparr>LaneToOut := m\<rparr>)) lanes
             (stateUpstreams, Gradient outputs stepUpstream g1)
         }"
proof -
  have "sorted_wrt (<) lanes"
    by (simp add: lanes_def strict_sorted_iff[symmetric])
  moreover have "set lanes = fmdom' m" by (simp add: lanes_def)
  moreover have "loopUsedLanes m f s = foldM f lanes s"
    unfolding lanes_def by (rule loopUsedLanes_sorted [OF keys])
  moreover have "grad_lanes (step\<lparr>LaneToOut := m\<rparr>) upstream t (stateUpstreams, g) =
         do {
           (stepUpstream, g1) \<leftarrow>
             foldM (grad_prepare (step\<lparr>LaneToOut := m\<rparr>) upstream t stateUpstreams) lanes
               (\<lparr>up_States = [], up_Outputs = []\<rparr>, g);
           outputs \<leftarrow> step_Outputs step;
           foldM (grad_collect (step\<lparr>LaneToOut := m\<rparr>)) lanes
             (stateUpstreams, Gradient outputs stepUpstream g1)
         }"
    unfolding lanes_def grad_lanes_def by (simp add: loopUsedLanes_sorted [OF keys] Let_def)
  ultimately show ?thesis by blast
qed

theorem loopUsedLanes_increasing_witness:
  "fmdom' demo_lanes = {0, 2}
   \<and> (0::int) \<le> 0 \<and> (0::int) < 2 ^ 63 \<and> (0::int) \<le> 2 \<and> (2::int) < 2 ^ 63
   \<and> sorted_list_of_set (fmdom' demo_lanes) = [0, 2]
   \<and> loopUsedLanes demo_lanes (\<lambda>l calls. Some (calls @ [l])) [] = Some [0, 2]"
proof -
  have d: "fmdom' demo_lanes = {0, 2}" by (auto simp: demo_lanes_def)
  have k: "\<forall>x\<in>fmdom' demo_lanes. 0 \<le> x \<and> x < 2 ^ 63" unfolding d by simp
  have l: "sorted_list_of_set (fmdom' demo_lanes) = [0, 2]" unfolding d by simp
  from loopUsedLanes_increasing [OF k, of "\<lambda>l calls. Some (calls @ [l])" "[]"]
  have "loopUsedLanes demo_lanes (\<lambda>l calls. Some (calls @ [l])) [] = Some [0, 2]"
    unfolding l by simp
  then show ?thesis using d l by simp
qed

subsection \<open>The forward pass\<close>

lemma pos_Suc:
  "pos seqs t (Suc l) = (if t < length (seqs ! l) then Suc (pos seqs t l) else pos seqs t l)"
  by (simp add: pos_def)

lemma pos_mono: "l \<le> k \<Longrightarrow> pos seqs t l \<le> pos seqs t k"
proof (induction k)
  case 0
  then show ?case by simp
next
  case (Suc k)
  then show ?case by (cases "l = Suc k") (auto simp: pos_Suc)
qed

lemma pos_less: "l < k \<Longrightarrow> t < length (seqs ! l) \<Longrightarrow> pos seqs t l < pos seqs t k"
  using pos_mono [of "Suc l" k seqs t] by (simp add: pos_Suc)

lemma pos_inj:
  assumes "t < length (seqs ! l)" "t < length (seqs ! j)" "pos seqs t l = pos seqs t j"
  shows "l = j"
proof (rule ccontr)
  assume "l \<noteq> j"
  then consider "l < j" | "j < l" by linarith
  then show False using assms pos_less [of l j t seqs] pos_less [of j l t seqs] by cases auto
qed

lemma lane_body_inactive:
  "\<not> t < length (seqs ! l) \<Longrightarrow> lane_body res seqs t l x = Some x"
  by (cases x) (simp add: lane_body_def Let_def)

lemma lane_body_active:
  assumes "t < length (seqs ! l)" and "prev_state res t l = Some v"
  shows "lane_body res seqs t l (step, input, nxt) =
     Some (step\<lparr>LaneToOut := fmupd (int l) (int (length (in_Inputs input))) (LaneToOut step),
                 step_Inputs := (step_Inputs step)[l := Some (seqs ! l ! t)],
                 InputVars := (InputVars step)[l := Some \<lparr>ref = nxt, Vector = Output (seqs ! l ! t)\<rparr>],
                 InStateVars := (InStateVars step)[l := Some \<lparr>ref = Suc nxt, Vector = v\<rparr>]\<rparr>,
           input\<lparr>in_Inputs := in_Inputs input @ [\<lparr>ref = nxt, Vector = Output (seqs ! l ! t)\<rparr>],
                 in_States := in_States input @ [\<lparr>ref = Suc nxt, Vector = v\<rparr>]\<rparr>,
           Suc (Suc nxt))"
  using assms
  by (auto simp: lane_body_def Let_def prev_state_def split: if_splits bind_splits)

lemma lanes_built_start:
  "lanes_built seqs t sv nxt 0 (empty_step (length seqs)) \<lparr>in_States = [], in_Inputs = []\<rparr>"
  by (simp add: lanes_built_def empty_step_def pos_def)

lemma lanes_built_step:
  assumes built: "lanes_built seqs t sv nxt k step input" and k: "k < length seqs"
    and prev: "t < length (seqs ! k) \<Longrightarrow> prev_state res t k = Some (sv k)"
  shows "\<exists>step' input'. lane_body res seqs t k (step, input, nxt + 2 * pos seqs t k)
             = Some (step', input', nxt + 2 * pos seqs t (Suc k))
           \<and> lanes_built seqs t sv nxt (Suc k) step' input'"
proof (cases "t < length (seqs ! k)")
  case False
  have "{l. l < Suc k \<and> t < length (seqs ! l)} = {l. l < k \<and> t < length (seqs ! l)}"
    using False by (auto simp: less_Suc_eq)
  then have "lanes_built seqs t sv nxt (Suc k) step input"
    using built False by (auto simp: lanes_built_def pos_Suc less_Suc_eq)
  then show ?thesis using False by (simp add: lane_body_inactive pos_Suc)
next
  case True
  define p where "p = pos seqs t k"
  define iv where "iv = \<lparr>ref = nxt + 2 * p, Vector = Output (seqs ! k ! t)\<rparr>"
  define sv' where "sv' = \<lparr>ref = Suc (nxt + 2 * p), Vector = sv k\<rparr>"
  define step' where "step' = step\<lparr>LaneToOut := fmupd (int k) (int (length (in_Inputs input))) (LaneToOut step),
                 step_Inputs := (step_Inputs step)[k := Some (seqs ! k ! t)],
                 InputVars := (InputVars step)[k := Some iv],
                 InStateVars := (InStateVars step)[k := Some sv']\<rparr>"
  define input' where "input' = input\<lparr>in_Inputs := in_Inputs input @ [iv],
                 in_States := in_States input @ [sv']\<rparr>"
  have body: "lane_body res seqs t k (step, input, nxt + 2 * p) = Some (step', input', Suc (Suc (nxt + 2 * p)))"
    unfolding step'_def input'_def iv_def sv'_def
    by (rule lane_body_active [OF True prev [OF True]])
  have lens: "length (in_Inputs input) = p" "length (in_States input) = p"
    "length (InStateVars step) = length seqs" "length (InputVars step) = length seqs"
    "length (step_Inputs step) = length seqs"
    using built by (simp_all add: lanes_built_def p_def)
  have keys: "{l. l < Suc k \<and> t < length (seqs ! l)} = insert k {l. l < k \<and> t < length (seqs ! l)}"
    using True by (auto simp: less_Suc_eq)
  have old: "l < k \<Longrightarrow> t < length (seqs ! l) \<Longrightarrow> pos seqs t l < p" for l
    unfolding p_def by (rule pos_less)
  have "lanes_built seqs t sv nxt (Suc k) step' input'"
    unfolding lanes_built_def
  proof (intro conjI allI impI)
    show "length (in_Inputs input') = pos seqs t (Suc k)"
      "length (in_States input') = pos seqs t (Suc k)"
      using True lens by (simp_all add: input'_def pos_Suc p_def)
    show "length (InStateVars step') = length seqs" "length (InputVars step') = length seqs"
      "length (step_Inputs step') = length seqs" "step_Outputs step' = None"
      using lens built by (simp_all add: step'_def lanes_built_def)
    show "fmdom' (LaneToOut step') = int ` {l. l < Suc k \<and> t < length (seqs ! l)}"
      using built unfolding keys by (simp add: step'_def lanes_built_def fmdom'_alt_def)
  next
    fix l assume l: "l < length seqs" and na: "\<not> (l < Suc k \<and> t < length (seqs ! l))"
    have "l \<noteq> k" using na True by auto
    moreover have "\<not> (l < k \<and> t < length (seqs ! l))" using na by auto
    ultimately show "InStateVars step' ! l = None" "InputVars step' ! l = None"
      using built l by (simp_all add: step'_def lanes_built_def)
  next
    fix l assume l: "l < Suc k" and a: "t < length (seqs ! l)"
    show "fmlookup (LaneToOut step') (int l) = Some (int (pos seqs t l))"
      "step_Inputs step' ! l = Some (seqs ! l ! t)"
      "InputVars step' ! l = Some (in_Inputs input' ! pos seqs t l)"
      "InStateVars step' ! l = Some (in_States input' ! pos seqs t l)"
      "in_Inputs input' ! pos seqs t l = \<lparr>ref = nxt + 2 * pos seqs t l, Vector = Output (seqs ! l ! t)\<rparr>"
      "in_States input' ! pos seqs t l = \<lparr>ref = nxt + 2 * pos seqs t l + 1, Vector = sv l\<rparr>"
    proof -
      consider "l = k" | "l < k" using l by linarith
      then have "fmlookup (LaneToOut step') (int l) = Some (int (pos seqs t l))
        \<and> step_Inputs step' ! l = Some (seqs ! l ! t)
        \<and> InputVars step' ! l = Some (in_Inputs input' ! pos seqs t l)
        \<and> InStateVars step' ! l = Some (in_States input' ! pos seqs t l)
        \<and> in_Inputs input' ! pos seqs t l = \<lparr>ref = nxt + 2 * pos seqs t l, Vector = Output (seqs ! l ! t)\<rparr>
        \<and> in_States input' ! pos seqs t l = \<lparr>ref = nxt + 2 * pos seqs t l + 1, Vector = sv l\<rparr>"
      proof cases
        case 1
        then show ?thesis using lens k
          by (simp add: step'_def input'_def p_def [symmetric] iv_def sv'_def nth_append)
      next
        case 2
        from built 2 a have b:
          "fmlookup (LaneToOut step) (int l) = Some (int (pos seqs t l))"
          "step_Inputs step ! l = Some (seqs ! l ! t)"
          "InputVars step ! l = Some (in_Inputs input ! pos seqs t l)"
          "InStateVars step ! l = Some (in_States input ! pos seqs t l)"
          "in_Inputs input ! pos seqs t l = \<lparr>ref = nxt + 2 * pos seqs t l, Vector = Output (seqs ! l ! t)\<rparr>"
          "in_States input ! pos seqs t l = \<lparr>ref = nxt + 2 * pos seqs t l + 1, Vector = sv l\<rparr>"
          by (simp_all add: lanes_built_def)
        show ?thesis using 2 b old [OF 2 a] lens
          by (simp add: step'_def input'_def nth_append)
      qed
      then show "fmlookup (LaneToOut step') (int l) = Some (int (pos seqs t l))"
      "step_Inputs step' ! l = Some (seqs ! l ! t)"
      "InputVars step' ! l = Some (in_Inputs input' ! pos seqs t l)"
      "InStateVars step' ! l = Some (in_States input' ! pos seqs t l)"
      "in_Inputs input' ! pos seqs t l = \<lparr>ref = nxt + 2 * pos seqs t l, Vector = Output (seqs ! l ! t)\<rparr>"
      "in_States input' ! pos seqs t l = \<lparr>ref = nxt + 2 * pos seqs t l + 1, Vector = sv l\<rparr>"
        by simp_all
    qed
  qed
  then show ?thesis using body True by (simp add: pos_Suc p_def)
qed

lemma lane_loop_upto:
  assumes prev: "\<And>l. l < length seqs \<Longrightarrow> t < length (seqs ! l) \<Longrightarrow> prev_state res t l = Some (sv l)"
  shows "k \<le> length seqs \<Longrightarrow>
    \<exists>step input. foldM (lane_body res seqs t) [0..<k]
          (empty_step (length seqs), \<lparr>in_States = [], in_Inputs = []\<rparr>, nxt)
        = Some (step, input, nxt + 2 * pos seqs t k)
      \<and> lanes_built seqs t sv nxt k step input"
proof (induction k)
  case 0
  show ?case using lanes_built_start [of seqs t sv nxt] by (simp add: pos_def)
next
  case (Suc k)
  then obtain step input where
    f: "foldM (lane_body res seqs t) [0..<k]
          (empty_step (length seqs), \<lparr>in_States = [], in_Inputs = []\<rparr>, nxt)
        = Some (step, input, nxt + 2 * pos seqs t k)"
    and b: "lanes_built seqs t sv nxt k step input" by auto
  have k: "k < length seqs" using Suc.prems by simp
  from lanes_built_step [OF b k prev [OF k]] obtain step' input' where
    "lane_body res seqs t k (step, input, nxt + 2 * pos seqs t k)
             = Some (step', input', nxt + 2 * pos seqs t (Suc k))"
    "lanes_built seqs t sv nxt (Suc k) step' input'" by blast
  then show ?case using f by (auto simp: foldM_snoc)
qed

lemma lane_loop_built:
  assumes "\<And>l. l < length seqs \<Longrightarrow> t < length (seqs ! l) \<Longrightarrow> prev_state res t l = Some (sv l)"
  shows "\<exists>step input. lane_loop res seqs t nxt
        = Some (step, input, nxt + 2 * pos seqs t (length seqs))
      \<and> lanes_built seqs t sv nxt (length seqs) step input"
  unfolding lane_loop_def using lane_loop_upto [OF assms order_refl] by simp

lemma pack_loop:
  assumes "distinct ls"
    and "\<forall>x\<in>set ls. \<exists>l p. x = int l \<and> l < length packed
           \<and> fmlookup m x = Some (int p) \<and> p < length outs"
  shows "\<exists>packed'. foldM (pack_body m outs) ls packed = Some packed'
     \<and> length packed' = length packed
     \<and> (\<forall>l<length packed.
           packed' ! l = (if int l \<in> set ls then packed ! l @ [outs ! nat (lookup0 m (int l))]
                          else packed ! l))"
  using assms
proof (induction ls arbitrary: packed)
  case Nil
  then show ?case by simp
next
  case (Cons x ls)
  from Cons.prems(2) obtain l p where x: "x = int l" "l < length packed"
    "fmlookup m x = Some (int p)" "p < length outs" by auto
  define packed1 where "packed1 = packed[l := packed ! l @ [outs ! p]]"
  have body: "pack_body m outs x packed = Some packed1"
    using x by (simp add: pack_body_def idx_int_def packed1_def)
  have d: "distinct ls" and notin: "x \<notin> set ls" using Cons.prems(1) by simp_all
  have "\<forall>y\<in>set ls. \<exists>l p. y = int l \<and> l < length packed1
           \<and> fmlookup m y = Some (int p) \<and> p < length outs"
    using Cons.prems(2) by (simp add: packed1_def)
  from Cons.IH [OF d this] obtain packed' where
    f: "foldM (pack_body m outs) ls packed1 = Some packed'"
    and len: "length packed' = length packed1"
    and nth: "\<forall>j<length packed1.
           packed' ! j = (if int j \<in> set ls then packed1 ! j @ [outs ! nat (lookup0 m (int j))]
                          else packed1 ! j)" by blast
  have "\<forall>j<length packed.
           packed' ! j = (if int j \<in> set (x # ls) then packed ! j @ [outs ! nat (lookup0 m (int j))]
                          else packed ! j)"
  proof (intro allI impI)
    fix j assume j: "j < length packed"
    show "packed' ! j = (if int j \<in> set (x # ls) then packed ! j @ [outs ! nat (lookup0 m (int j))]
                          else packed ! j)"
    proof (cases "j = l")
      case True
      then show ?thesis using nth j notin x by (simp add: packed1_def lookup0_def)
    next
      case False
      then show ?thesis using nth j x by (simp add: packed1_def)
    qed
  qed
  then show ?case using body f len by (simp add: packed1_def)
qed

lemma horizon_ge: "l < length seqs \<Longrightarrow> length (seqs ! l) \<le> horizon seqs"
  unfolding horizon_def by (intro Max_ge) auto

lemma horizon_active:
  assumes "t < horizon seqs"
  shows "\<exists>l<length seqs. t < length (seqs ! l)"
proof -
  have "Max (insert 0 (length ` set seqs)) \<in> insert 0 (length ` set seqs)"
    by (intro Max_in) auto
  then have "horizon seqs \<in> length ` set seqs" using assms by (auto simp: horizon_def)
  then obtain q where "q \<in> set seqs" "horizon seqs = length q" by auto
  then show ?thesis using assms by (auto simp: in_set_conv_nth)
qed

lemma prev_state_extend:
  "t \<le> length (Steps res) \<Longrightarrow>
   prev_state (res\<lparr>Steps := Steps res @ [step], PackedOut := packed\<rparr>) t l = prev_state res t l"
  by (auto simp: prev_state_def idx_def nth_append)

lemma prev_state_defined:
  assumes ok: "block_ok r" and inv: "unrolled r seqs nxt0 t res"
    and l: "l < length seqs" and a: "t < length (seqs ! l)"
  shows "\<exists>v. prev_state res t l = Some v"
proof (cases "t = 0")
  case True
  then show ?thesis by (simp add: prev_state_def)
next
  case False
  then have t1: "t - 1 < t" by simp
  from inv t1 have "step_at r seqs nxt0 res (t - 1)" by (simp add: unrolled_def)
  then obtain step0 input nxt sv where
    b: "lanes_built seqs (t - 1) sv nxt (length seqs) step0 input"
    and st: "Steps res ! (t - 1) = step0\<lparr>step_Outputs := Some (Batch r input)\<rparr>"
    by (auto simp: step_at_def)
  have a1: "t - 1 < length (seqs ! l)" using a by simp
  have look: "fmlookup (LaneToOut step0) (int l) = Some (int (pos seqs (t - 1) l))"
    using b l a1 by (simp add: lanes_built_def)
  have lens: "length (in_Inputs input) = pos seqs (t - 1) (length seqs)"
    "length (in_States input) = pos seqs (t - 1) (length seqs)"
    using b by (simp_all add: lanes_built_def)
  then have "length (States (Batch r input)) = pos seqs (t - 1) (length seqs)"
    using ok by (simp add: block_ok_def)
  moreover have "pos seqs (t - 1) l < pos seqs (t - 1) (length seqs)"
    using l a1 by (rule pos_less)
  moreover have "length (Steps res) = t" using inv by (simp add: unrolled_def)
  ultimately show ?thesis using False st look
    by (simp add: prev_state_def idx_def idx_int_def lookup0_def)
qed

lemma unrolled_step:
  assumes ok: "block_ok r" and inv: "unrolled r seqs nxt0 t res"
    and act: "t < horizon seqs" and nx: "nxt0 \<le> nxt"
  shows "\<exists>step0 input packed.
       lane_loop res seqs t nxt = Some (step0, input, nxt + 2 * pos seqs t (length seqs))
     \<and> fcard (fmdom (LaneToOut step0)) \<noteq> 0
     \<and> foldM (pack_body (LaneToOut step0) (Outputs (Batch r input)))
          (sorted_list_of_fset (fmdom (LaneToOut step0))) (PackedOut res) = Some packed
     \<and> unrolled r seqs nxt0 (Suc t)
          (res\<lparr>Steps := Steps res @ [step0\<lparr>step_Outputs := Some (Batch r input)\<rparr>],
               PackedOut := packed\<rparr>)"
proof -
  define n where "n = length seqs"
  define sv where "sv = (\<lambda>l. the (prev_state res t l))"
  have prev: "prev_state res t l = Some (sv l)" if "l < length seqs" "t < length (seqs ! l)" for l
    using prev_state_defined [OF ok inv that] by (auto simp: sv_def)
  from lane_loop_built [of seqs t res sv nxt, OF prev] obtain step0 input where
    ll: "lane_loop res seqs t nxt = Some (step0, input, nxt + 2 * pos seqs t (length seqs))"
    and b: "lanes_built seqs t sv nxt (length seqs) step0 input" by blast
  define m where "m = LaneToOut step0"
  define outs where "outs = Outputs (Batch r input)"
  have keys: "fmdom' m = int ` {l. l < length seqs \<and> t < length (seqs ! l)}"
    using b by (simp add: lanes_built_def m_def)
  have look: "fmlookup m (int l) = Some (int (pos seqs t l))"
    if "l < length seqs" "t < length (seqs ! l)" for l
    using b that by (simp add: lanes_built_def m_def)
  have lens: "length (in_Inputs input) = pos seqs t (length seqs)"
    "length (in_States input) = pos seqs t (length seqs)"
    using b by (simp_all add: lanes_built_def)
  then have louts: "length outs = pos seqs t (length seqs)"
    using ok by (simp add: block_ok_def outs_def)
  from horizon_active [OF act] have "fmdom' m \<noteq> {}" unfolding keys by auto
  then have nonempty: "fcard (fmdom m) \<noteq> 0"
    by (auto simp: fmdom'_alt_def fcard.rep_eq)
  have inv': "out_StartState res = StartState r" "length (Steps res) = t"
    "length (PackedOut res) = length seqs"
    "\<And>l. l < length seqs \<Longrightarrow> length (PackedOut res ! l) = min t (length (seqs ! l))"
    "\<And>t'. t' < t \<Longrightarrow> step_at r seqs nxt0 res t'"
    using inv by (simp_all add: unrolled_def)
  define ls where "ls = sorted_list_of_fset (fmdom m)"
  have setls: "set ls = fmdom' m" by (simp add: ls_def fmdom'_alt_def)
  have "distinct ls" by (simp add: ls_def sorted_list_of_fset.rep_eq)
  moreover have "\<forall>x\<in>set ls. \<exists>l p. x = int l \<and> l < length (PackedOut res)
           \<and> fmlookup m x = Some (int p) \<and> p < length outs"
  proof
    fix x assume "x \<in> set ls"
    then obtain l where l: "x = int l" "l < length seqs" "t < length (seqs ! l)"
      unfolding setls keys by auto
    have "pos seqs t l < length outs" unfolding louts using l(2,3) by (rule pos_less)
    then show "\<exists>l p. x = int l \<and> l < length (PackedOut res)
           \<and> fmlookup m x = Some (int p) \<and> p < length outs"
      using l look [OF l(2,3)] inv'(3) by auto
  qed
  ultimately obtain packed where
    pk: "foldM (pack_body m outs) ls (PackedOut res) = Some packed"
    and plen: "length packed = length (PackedOut res)"
    and pnth: "\<forall>l<length (PackedOut res).
           packed ! l = (if int l \<in> set ls then PackedOut res ! l @ [outs ! nat (lookup0 m (int l))]
                          else PackedOut res ! l)"
    using pack_loop [of ls "PackedOut res" m outs] by blast
  have prow: "packed ! l = (if t < length (seqs ! l) then PackedOut res ! l @ [outs ! pos seqs t l]
                            else PackedOut res ! l)" if l: "l < length seqs" for l
  proof (cases "t < length (seqs ! l)")
    case True
    then have "int l \<in> set ls" unfolding setls keys using l by auto
    then show ?thesis using pnth l inv'(3) True look [OF l True] by (simp add: lookup0_def)
  next
    case False
    then have "int l \<notin> set ls" unfolding setls keys by auto
    then show ?thesis using pnth l inv'(3) False by simp
  qed
  define res2 where "res2 = res\<lparr>Steps := Steps res @ [step0\<lparr>step_Outputs := Some (Batch r input)\<rparr>],
               PackedOut := packed\<rparr>"
  have "unrolled r seqs nxt0 (Suc t) res2"
    unfolding unrolled_def
  proof (intro conjI allI impI)
    show "out_StartState res2 = StartState r" "length (Steps res2) = Suc t"
      "length (PackedOut res2) = length seqs"
      using inv' plen by (simp_all add: res2_def)
  next
    fix l assume l: "l < length seqs"
    show "length (PackedOut res2 ! l) = min (Suc t) (length (seqs ! l))"
      using prow [OF l] inv'(4) [OF l] by (auto simp: res2_def)
  next
    fix t' assume t': "t' < Suc t"
    show "step_at r seqs nxt0 res2 t'"
    proof (cases "t' = t")
      case True
      have "\<forall>l<length seqs. t < length (seqs ! l) \<longrightarrow>
            prev_state res2 t l = Some (sv l)
          \<and> PackedOut res2 ! l ! t = Outputs (Batch r input) ! pos seqs t l"
      proof (intro allI impI)
        fix l assume l: "l < length seqs" and a: "t < length (seqs ! l)"
        have "prev_state res2 t l = prev_state res t l"
          unfolding res2_def by (rule prev_state_extend) (simp add: inv')
        moreover have "PackedOut res2 ! l ! t = outs ! pos seqs t l"
          using prow [OF l] a inv'(4) [OF l] by (simp add: res2_def nth_append)
        ultimately show "prev_state res2 t l = Some (sv l)
          \<and> PackedOut res2 ! l ! t = Outputs (Batch r input) ! pos seqs t l"
          using prev [OF l a] by (simp add: outs_def)
      qed
      moreover have "Steps res2 ! t = step0\<lparr>step_Outputs := Some (Batch r input)\<rparr>"
        using inv'(2) by (simp add: res2_def nth_append)
      ultimately show ?thesis unfolding True step_at_def using nx b by blast
    next
      case False
      then have lt: "t' < t" using t' by simp
      from inv'(5) [OF lt] obtain step0' input' nxt' sv' where
        o: "nxt0 \<le> nxt'" "lanes_built seqs t' sv' nxt' (length seqs) step0' input'"
        "Steps res ! t' = step0'\<lparr>step_Outputs := Some (Batch r input')\<rparr>"
        "\<forall>l<length seqs. t' < length (seqs ! l) \<longrightarrow>
            prev_state res t' l = Some (sv' l)
          \<and> PackedOut res ! l ! t' = Outputs (Batch r input') ! pos seqs t' l"
        unfolding step_at_def by blast
      have "\<forall>l<length seqs. t' < length (seqs ! l) \<longrightarrow>
            prev_state res2 t' l = Some (sv' l)
          \<and> PackedOut res2 ! l ! t' = Outputs (Batch r input') ! pos seqs t' l"
      proof (intro allI impI)
        fix l assume l: "l < length seqs" and a: "t' < length (seqs ! l)"
        have "prev_state res2 t' l = prev_state res t' l"
          unfolding res2_def by (rule prev_state_extend) (use lt inv' in simp)
        moreover have "t' < length (PackedOut res ! l)" using inv'(4) [OF l] lt a by simp
        then have "PackedOut res2 ! l ! t' = PackedOut res ! l ! t'"
          using prow [OF l] by (simp add: res2_def nth_append)
        ultimately show "prev_state res2 t' l = Some (sv' l)
          \<and> PackedOut res2 ! l ! t' = Outputs (Batch r input') ! pos seqs t' l"
          using o(4) l a by simp
      qed
      moreover have "Steps res2 ! t' = step0'\<lparr>step_Outputs := Some (Batch r input')\<rparr>"
        using o(3) lt inv'(2) by (simp add: res2_def nth_append)
      ultimately show ?thesis unfolding step_at_def using o(1,2) by blast
    qed
  qed
  then show ?thesis
    using ll nonempty pk unfolding res2_def m_def outs_def ls_def by blast
qed

lemma BatchSeqs_loop_unrolls:
  assumes ok: "block_ok r"
  shows "unrolled r seqs nxt0 t res \<Longrightarrow> t \<le> horizon seqs \<Longrightarrow> nxt0 \<le> nxt \<Longrightarrow>
    \<exists>res' nxt'. BatchSeqs_loop r seqs t res nxt = Some (res', nxt')
       \<and> unrolled r seqs nxt0 (horizon seqs) res' \<and> nxt \<le> nxt'"
proof (induction "horizon seqs - t" arbitrary: t res nxt)
  case 0
  then have t: "t = horizon seqs" by simp
  have none: "l < length seqs \<Longrightarrow> \<not> t < length (seqs ! l)" for l
    using horizon_ge [of l seqs] t by simp
  have "prev_state res t l = Some (the (prev_state res t l))"
    if "l < length seqs" "t < length (seqs ! l)" for l using none that by simp
  from lane_loop_built [of seqs t res "\<lambda>l. the (prev_state res t l)" nxt, OF this]
  obtain step0 input where
    ll: "lane_loop res seqs t nxt = Some (step0, input, nxt + 2 * pos seqs t (length seqs))"
    and b: "lanes_built seqs t (\<lambda>l. the (prev_state res t l)) nxt (length seqs) step0 input"
    by blast
  have "fmdom' (LaneToOut step0) = {}" using b none by (auto simp: lanes_built_def)
  then have "fcard (fmdom (LaneToOut step0)) = 0"
    by (simp add: fmdom'_alt_def fcard.rep_eq)
  then have "BatchSeqs_loop r seqs t res nxt = Some (res, nxt + 2 * pos seqs t (length seqs))"
    using ll by (subst BatchSeqs_loop.simps) simp
  then show ?case using "0.prems"(1) t by simp
next
  case (Suc d)
  then have act: "t < horizon seqs" by simp
  from unrolled_step [OF ok Suc.prems(1) act Suc.prems(3)] obtain step0 input packed where
    ll: "lane_loop res seqs t nxt = Some (step0, input, nxt + 2 * pos seqs t (length seqs))"
    and ne: "fcard (fmdom (LaneToOut step0)) \<noteq> 0"
    and pk: "foldM (pack_body (LaneToOut step0) (Outputs (Batch r input)))
          (sorted_list_of_fset (fmdom (LaneToOut step0))) (PackedOut res) = Some packed"
    and inv: "unrolled r seqs nxt0 (Suc t)
          (res\<lparr>Steps := Steps res @ [step0\<lparr>step_Outputs := Some (Batch r input)\<rparr>],
               PackedOut := packed\<rparr>)" by blast
  have d: "d = horizon seqs - Suc t" using Suc.hyps(2) by simp
  have le: "Suc t \<le> horizon seqs" using act by simp
  have nx: "nxt0 \<le> nxt + 2 * pos seqs t (length seqs)" using Suc.prems(3) by simp
  from Suc.hyps(1) [OF d inv le nx] obtain res' nxt' where
    r: "BatchSeqs_loop r seqs (Suc t)
          (res\<lparr>Steps := Steps res @ [step0\<lparr>step_Outputs := Some (Batch r input)\<rparr>],
               PackedOut := packed\<rparr>) (nxt + 2 * pos seqs t (length seqs)) = Some (res', nxt')"
    and u: "unrolled r seqs nxt0 (horizon seqs) res'"
    and n: "nxt + 2 * pos seqs t (length seqs) \<le> nxt'" by blast
  have "BatchSeqs_loop r seqs t res nxt = Some (res', nxt')"
    using ll ne pk r by (subst BatchSeqs_loop.simps) (simp add: Let_def)
  then show ?case using u n by simp
qed

lemma pos_card: "pos seqs t k = card {l. l < k \<and> t < length (seqs ! l)}"
proof -
  have "{i. i < k \<and> t < length (seqs ! ([0..<k] ! i))} = {l. l < k \<and> t < length (seqs ! l)}"
    by auto
  then show ?thesis unfolding pos_def by (simp add: length_filter_conv_card)
qed

text \<open>
  Claim C1. With a Block that returns one output and one state per lane, \<open>BatchSeqs\<close>
  returns; it has run the Block once for each time \<open>t\<close> below the longest sequence's length,
  on a batch with exactly the lanes whose sequence has more than \<open>t\<close> elements, in lane
  order (the lane map sends lane \<open>l\<close> to its position). At its position the lane's input
  variable holds the output of its \<open>t\<close>-th raw input, which is also recorded in the step, and
  its in-state variable holds the start state's output at \<open>t = 0\<close> and otherwise the state
  that step \<open>t - 1\<close> put out at the position its lane map gives for the lane
  (\<open>prev_state\<close>). The lane's output at \<open>t\<close> is entry \<open>t\<close> of its packed sequence, which has as
  many entries as the lane's input sequence.
\<close>

theorem BatchSeqs_unrolls:
  assumes ok: "block_ok r"
  shows "\<exists>res nxt'. BlockSeqFunc_BatchSeqs r seqs nxt = Some (res, nxt')
    \<and> out_StartState res = StartState r
    \<and> length (Steps res) = horizon seqs
    \<and> length (PackedOut res) = length seqs
    \<and> (\<forall>l<length seqs. length (PackedOut res ! l) = length (seqs ! l))
    \<and> (\<forall>t<horizon seqs. \<exists>input.
          step_Outputs (Steps res ! t) = Some (Batch r input)
        \<and> length (in_Inputs input) = card {l. l < length seqs \<and> t < length (seqs ! l)}
        \<and> length (in_States input) = card {l. l < length seqs \<and> t < length (seqs ! l)}
        \<and> fmdom' (LaneToOut (Steps res ! t)) = int ` {l. l < length seqs \<and> t < length (seqs ! l)}
        \<and> (\<forall>l<length seqs. t < length (seqs ! l) \<longrightarrow>
              fmlookup (LaneToOut (Steps res ! t)) (int l) = Some (int (pos seqs t l))
            \<and> step_Inputs (Steps res ! t) ! l = Some (seqs ! l ! t)
            \<and> Vector (in_Inputs input ! pos seqs t l) = Output (seqs ! l ! t)
            \<and> prev_state res t l = Some (Vector (in_States input ! pos seqs t l))
            \<and> PackedOut res ! l ! t = Outputs (Batch r input) ! pos seqs t l))"
proof -
  define res0 where "res0 = \<lparr>out_StartState = StartState r, Steps = [],
      PackedOut = replicate (length seqs) ([] :: vec list)\<rparr>"
  have "unrolled r seqs nxt 0 res0" by (simp add: unrolled_def res0_def)
  from BatchSeqs_loop_unrolls [OF ok this, of nxt] obtain res nxt' where
    run: "BatchSeqs_loop r seqs 0 res0 nxt = Some (res, nxt')"
    and u: "unrolled r seqs nxt (horizon seqs) res" by auto
  have steps: "\<exists>input.
          step_Outputs (Steps res ! t) = Some (Batch r input)
        \<and> length (in_Inputs input) = card {l. l < length seqs \<and> t < length (seqs ! l)}
        \<and> length (in_States input) = card {l. l < length seqs \<and> t < length (seqs ! l)}
        \<and> fmdom' (LaneToOut (Steps res ! t)) = int ` {l. l < length seqs \<and> t < length (seqs ! l)}
        \<and> (\<forall>l<length seqs. t < length (seqs ! l) \<longrightarrow>
              fmlookup (LaneToOut (Steps res ! t)) (int l) = Some (int (pos seqs t l))
            \<and> step_Inputs (Steps res ! t) ! l = Some (seqs ! l ! t)
            \<and> Vector (in_Inputs input ! pos seqs t l) = Output (seqs ! l ! t)
            \<and> prev_state res t l = Some (Vector (in_States input ! pos seqs t l))
            \<and> PackedOut res ! l ! t = Outputs (Batch r input) ! pos seqs t l)"
    if t: "t < horizon seqs" for t
  proof -
    from u t have "step_at r seqs nxt res t" by (simp add: unrolled_def)
    then obtain step0 input nx sv where
      b: "lanes_built seqs t sv nx (length seqs) step0 input"
      and st: "Steps res ! t = step0\<lparr>step_Outputs := Some (Batch r input)\<rparr>"
      and pv: "\<forall>l<length seqs. t < length (seqs ! l) \<longrightarrow>
            prev_state res t l = Some (sv l)
          \<and> PackedOut res ! l ! t = Outputs (Batch r input) ! pos seqs t l"
      unfolding step_at_def by blast
    have "step_Outputs (Steps res ! t) = Some (Batch r input)" by (simp add: st)
    moreover have "length (in_Inputs input) = card {l. l < length seqs \<and> t < length (seqs ! l)}"
      "length (in_States input) = card {l. l < length seqs \<and> t < length (seqs ! l)}"
      using b by (simp_all add: lanes_built_def pos_card)
    moreover have "fmdom' (LaneToOut (Steps res ! t))
        = int ` {l. l < length seqs \<and> t < length (seqs ! l)}"
      using b by (simp add: lanes_built_def st)
    moreover have "\<forall>l<length seqs. t < length (seqs ! l) \<longrightarrow>
              fmlookup (LaneToOut (Steps res ! t)) (int l) = Some (int (pos seqs t l))
            \<and> step_Inputs (Steps res ! t) ! l = Some (seqs ! l ! t)
            \<and> Vector (in_Inputs input ! pos seqs t l) = Output (seqs ! l ! t)
            \<and> prev_state res t l = Some (Vector (in_States input ! pos seqs t l))
            \<and> PackedOut res ! l ! t = Outputs (Batch r input) ! pos seqs t l"
      using b pv by (simp add: lanes_built_def st)
    ultimately show ?thesis by blast
  qed
  have "BlockSeqFunc_BatchSeqs r seqs nxt = Some (res, nxt')"
    using run by (simp add: BlockSeqFunc_BatchSeqs_def res0_def)
  moreover have "out_StartState res = StartState r" "length (Steps res) = horizon seqs"
    "length (PackedOut res) = length seqs"
    using u by (simp_all add: unrolled_def)
  moreover have "length (PackedOut res ! l) = length (seqs ! l)" if "l < length seqs" for l
    using u that horizon_ge [OF that] by (simp add: unrolled_def min_absorb2)
  ultimately show ?thesis using steps by blast
qed

lemma demo_block_ok: "block_ok demo_block"
  by (simp add: block_ok_def demo_block_def demo_batch_def)

lemma BatchSeqs_demo_eval:
  "map_option (\<lambda>(res, n). (PackedOut res, n)) (BlockSeqFunc_BatchSeqs demo_block demo_seqs 100)
     = Some ([[[1, 0], [2, 1], [3, 3]], [[4, 0]]], 108)"
  by code_simp

theorem BatchSeqs_unrolls_witness:
  "block_ok demo_block
   \<and> (\<exists>res. BlockSeqFunc_BatchSeqs demo_block demo_seqs 100 = Some (res, 108)
         \<and> length (Steps res) = 3
         \<and> PackedOut res = [[[1, 0], [2, 1], [3, 3]], [[4, 0]]]
         \<and> length (PackedOut res ! 0) = length (demo_seqs ! 0)
         \<and> length (PackedOut res ! 1) = length (demo_seqs ! 1))"
proof -
  have h: "horizon demo_seqs = 3" by (simp add: horizon_def demo_seqs_def)
  have n: "length demo_seqs = 2" by (simp add: demo_seqs_def)
  from BatchSeqs_unrolls [OF demo_block_ok, of demo_seqs 100] obtain res nxt' where
    run: "BlockSeqFunc_BatchSeqs demo_block demo_seqs 100 = Some (res, nxt')"
    and steps: "length (Steps res) = horizon demo_seqs"
    and rows: "\<forall>l<length demo_seqs. length (PackedOut res ! l) = length (demo_seqs ! l)"
    by blast
  from BatchSeqs_demo_eval run
  have "PackedOut res = [[[1, 0], [2, 1], [3, 3]], [[4, 0]]]" "nxt' = 108" by simp_all
  moreover have "length (PackedOut res ! 0) = length (demo_seqs ! 0)"
    "length (PackedOut res ! 1) = length (demo_seqs ! 1)"
    using rows n by simp_all
  ultimately show ?thesis using run steps h demo_block_ok by simp
qed

section \<open>Properties of the bidirectional composer\<close>

subsection \<open>Joining the forward and backward outputs\<close>

lemma reverseInputSeqs_rev: "reverseInputSeqs seqs = map rev seqs"
proof -
  have "map (\<lambda>k. s ! (length s - (k + 1))) [0..<length s] = rev s" for s :: "'a list"
    by (rule nth_equalityI) (simp_all add: rev_nth)
  then show ?thesis by (simp add: reverseInputSeqs_def)
qed

lemma join_time_loop:
  assumes "length forwSeq \<le> length backSeq"
  shows "k \<le> length forwSeq \<Longrightarrow>
    foldM (join_time forwSeq backSeq) [0..<k] ([], nxt)
      = Some (joined_row forwSeq backSeq nxt k, nxt + k)"
proof (induction k)
  case 0
  then show ?case by (simp add: joined_row_def)
next
  case (Suc k)
  then have "foldM (join_time forwSeq backSeq) [0..<k] ([], nxt)
      = Some (joined_row forwSeq backSeq nxt k, nxt + k)" by simp
  moreover have "int (length forwSeq) - (int k + 1) = int (length forwSeq - (k + 1))"
    using Suc.prems by simp
  then have "idx_int backSeq (int (length forwSeq) - (int k + 1))
      = Some (backSeq ! (length forwSeq - (k + 1)))"
    using Suc.prems assms unfolding idx_int_def by (simp del: of_nat_diff)
  then have "join_time forwSeq backSeq k (joined_row forwSeq backSeq nxt k, nxt + k)
      = Some (joined_row forwSeq backSeq nxt (Suc k), nxt + Suc k)"
    by (simp add: join_time_def joined_row_def)
  ultimately show ?case by (simp add: foldM_snoc)
qed

lemma lane_start_Suc:
  "lane < length forwSeqs \<Longrightarrow>
   lane_start forwSeqs nxt (Suc lane) = lane_start forwSeqs nxt lane + length (forwSeqs ! lane)"
  by (simp add: lane_start_def take_Suc_conv_app_nth)

lemma join_lane_loop:
  assumes shape: "\<forall>lane<length forwSeqs. lane < length backSeqs
        \<and> length (forwSeqs ! lane) \<le> length (backSeqs ! lane)"
    and n: "length forwSeqs \<le> n"
  shows "k \<le> length forwSeqs \<Longrightarrow>
    \<exists>joinedVars. foldM (join_lane forwSeqs backSeqs) [0..<k] (replicate n [], nxt)
        = Some (joinedVars, lane_start forwSeqs nxt k)
      \<and> length joinedVars = n
      \<and> (\<forall>lane<n. joinedVars ! lane =
            (if lane < k
             then joined_row (forwSeqs ! lane) (backSeqs ! lane) (lane_start forwSeqs nxt lane)
                    (length (forwSeqs ! lane))
             else []))"
proof (induction k)
  case 0
  then show ?case by (simp add: lane_start_def)
next
  case (Suc k)
  then obtain joinedVars where
    f: "foldM (join_lane forwSeqs backSeqs) [0..<k] (replicate n [], nxt)
        = Some (joinedVars, lane_start forwSeqs nxt k)"
    and len: "length joinedVars = n"
    and nth: "\<forall>lane<n. joinedVars ! lane =
            (if lane < k
             then joined_row (forwSeqs ! lane) (backSeqs ! lane) (lane_start forwSeqs nxt lane)
                    (length (forwSeqs ! lane))
             else [])" by auto
  have k: "k < length forwSeqs" using Suc.prems by simp
  then have kb: "k < length backSeqs" "length (forwSeqs ! k) \<le> length (backSeqs ! k)"
    using shape by auto
  define row where "row = joined_row (forwSeqs ! k) (backSeqs ! k) (lane_start forwSeqs nxt k)
                    (length (forwSeqs ! k))"
  have "join_lane forwSeqs backSeqs k (joinedVars, lane_start forwSeqs nxt k)
      = Some (joinedVars[k := row], lane_start forwSeqs nxt (Suc k))"
    using k kb n len join_time_loop [OF kb(2) order_refl, of "lane_start forwSeqs nxt k"]
    by (simp add: join_lane_def idx_def Let_def row_def lane_start_Suc)
  moreover have "\<forall>lane<n. joinedVars[k := row] ! lane =
            (if lane < Suc k
             then joined_row (forwSeqs ! lane) (backSeqs ! lane) (lane_start forwSeqs nxt lane)
                    (length (forwSeqs ! lane))
             else [])"
    using nth len k n by (auto simp: nth_list_update row_def less_Suc_eq)
  ultimately show ?case using f len by (simp add: foldM_snoc)
qed

text \<open>
  Claim C5. Let the forward function run on the batch and the backward function on the
  time-reversed batch (each sequence reversed), both without panic and both putting out,
  for every lane, as many vectors as the lane has inputs; let the output function not
  panic. Then \<open>Bidirectional.BatchSeqs\<close> returns; the output function is fed one joined
  sequence per lane, as long as the lane's input, whose entry at time \<open>t\<close> is the forward
  output at \<open>t\<close> followed by the backward output at \<open>N - 1 - t\<close> (\<open>N\<close> the lane's length); and
  when the output function puts out its inputs unchanged, that is the composer's output.
\<close>

theorem Bidirectional_joins:
  assumes fwd: "BatchSeqs (Forward b) seqs nxt = Some (forwardOut, n1)"
    and bwd: "BatchSeqs (Backward b) (map rev seqs) n1 = Some (backwardOut, n2)"
    and shape_f: "map length (OutputSeqs forwardOut) = map length seqs"
    and shape_b: "map length (OutputSeqs backwardOut) = map length seqs"
    and out: "\<forall>joined n3. BatchSeqs (Output_fn b) joined n3 \<noteq> None"
  shows "\<exists>res nxt' n3.
      Bidirectional_BatchSeqs b seqs nxt = Some (res, nxt')
    \<and> reverseInputSeqs seqs = map rev seqs
    \<and> ForwardOut res = forwardOut \<and> BackwardOut res = backwardOut
    \<and> BatchSeqs (Output_fn b) (map (map var_result) (Joined res)) n3 = Some (Out res, nxt')
    \<and> length (Joined res) = length seqs
    \<and> (\<forall>lane<length seqs.
          length (Joined res ! lane) = length (seqs ! lane)
        \<and> (\<forall>t<length (seqs ! lane).
              Output (var_result (Joined res ! lane ! t)) =
                OutputSeqs forwardOut ! lane ! t
                  @ OutputSeqs backwardOut ! lane ! (length (seqs ! lane) - 1 - t)))
    \<and> (OutputSeqs (Out res) = map (map Output) (map (map var_result) (Joined res)) \<longrightarrow>
         (\<forall>lane<length seqs. \<forall>t<length (seqs ! lane).
            OutputSeqs (Out res) ! lane ! t =
              OutputSeqs forwardOut ! lane ! t
                @ OutputSeqs backwardOut ! lane ! (length (seqs ! lane) - 1 - t)))"
proof -
  define fs where "fs = OutputSeqs forwardOut"
  define bs where "bs = OutputSeqs backwardOut"
  have lf: "length fs = length seqs" and lb: "length bs = length seqs"
    using map_eq_imp_length_eq [OF shape_f] map_eq_imp_length_eq [OF shape_b]
    by (simp_all add: fs_def bs_def)
  have rowf: "length (fs ! lane) = length (seqs ! lane)"
    and rowb: "length (bs ! lane) = length (seqs ! lane)" if "lane < length seqs" for lane
  proof -
    have "map length fs ! lane = map length seqs ! lane" using shape_f by (simp add: fs_def)
    then show "length (fs ! lane) = length (seqs ! lane)" using that lf by simp
    have "map length bs ! lane = map length seqs ! lane" using shape_b by (simp add: bs_def)
    then show "length (bs ! lane) = length (seqs ! lane)" using that lb by simp
  qed
  have shape: "\<forall>lane<length fs. lane < length bs \<and> length (fs ! lane) \<le> length (bs ! lane)"
    using lf lb rowf rowb by simp
  from join_lane_loop [OF shape, of "length seqs" "length fs" n2] lf
  obtain joinedVars where
    j: "foldM (join_lane fs bs) [0..<length fs] (replicate (length seqs) [], n2)
        = Some (joinedVars, lane_start fs n2 (length fs))"
    and jl: "length joinedVars = length seqs"
    and jn: "\<forall>lane<length seqs. joinedVars ! lane =
            (if lane < length fs
             then joined_row (fs ! lane) (bs ! lane) (lane_start fs n2 lane) (length (fs ! lane))
             else [])" by auto
  define n3 where "n3 = lane_start fs n2 (length fs)"
  from out have "BatchSeqs (Output_fn b) (map (map var_result) joinedVars) n3 \<noteq> None"
    by blast
  then obtain outp n4 where
    o: "BatchSeqs (Output_fn b) (map (map var_result) joinedVars) n3 = Some (outp, n4)"
    by (cases "BatchSeqs (Output_fn b) (map (map var_result) joinedVars) n3") auto
  define res where "res = \<lparr>ForwardOut = forwardOut, BackwardOut = backwardOut,
      Joined = joinedVars, Out = outp\<rparr>"
  have run: "Bidirectional_BatchSeqs b seqs nxt = Some (res, n4)"
    using fwd bwd j o
    by (simp add: Bidirectional_BatchSeqs_def reverseInputSeqs_rev fs_def bs_def n3_def
        res_def Let_def)
  have rows: "length (Joined res ! lane) = length (seqs ! lane)
        \<and> (\<forall>t<length (seqs ! lane).
              Output (var_result (Joined res ! lane ! t)) =
                fs ! lane ! t @ bs ! lane ! (length (seqs ! lane) - 1 - t))"
    if l: "lane < length seqs" for lane
    using jn l lf rowf [OF l] by (simp add: res_def joined_row_def var_result_def)
  have ident: "\<forall>lane<length seqs. \<forall>t<length (seqs ! lane).
            OutputSeqs (Out res) ! lane ! t =
              fs ! lane ! t @ bs ! lane ! (length (seqs ! lane) - 1 - t)"
    if "OutputSeqs (Out res) = map (map Output) (map (map var_result) (Joined res))"
    using that rows jl by (simp add: res_def)
  show ?thesis
    using run reverseInputSeqs_rev [of seqs] o jl rows ident
    unfolding fs_def bs_def
    by (intro exI [of _ res] exI [of _ n4] exI [of _ n3]) (simp add: res_def)
qed

lemma BlockSeqFunc_shape:
  assumes ok: "block_ok r"
  shows "\<exists>fo n1. BatchSeqs (BlockSeqFunc r ser) seqs nxt = Some (fo, n1)
     \<and> map length (OutputSeqs fo) = map length seqs"
proof -
  define res0 where "res0 = \<lparr>out_StartState = StartState r, Steps = [],
      PackedOut = replicate (length seqs) ([] :: vec list)\<rparr>"
  have "unrolled r seqs nxt 0 res0" by (simp add: unrolled_def res0_def)
  from BatchSeqs_loop_unrolls [OF ok this, of nxt] obtain res nxt' where
    run: "BatchSeqs_loop r seqs 0 res0 nxt = Some (res, nxt')"
    and u: "unrolled r seqs nxt (horizon seqs) res" by auto
  have len: "length (PackedOut res) = length seqs" using u by (simp add: unrolled_def)
  have "length (PackedOut res ! l) = length (seqs ! l)" if "l < length seqs" for l
    using u that horizon_ge [OF that] by (simp add: unrolled_def min_absorb2)
  then have "map length (PackedOut res) = map length seqs"
    using len by (intro nth_equalityI) simp_all
  then show ?thesis
    using run
    by (simp add: BlockSeqFunc_def BlockSeqFunc_BatchSeqs_def res0_def
        BlockSeqFuncOutput_ResultSeqs_def)
qed

lemma Bidirectional_demo_eval:
  "map_option (\<lambda>(res, n). (map (map Vector) (Joined res), OutputSeqs (Out res), n))
     (Bidirectional_BatchSeqs demo_bidirectional demo_seqs 100)
   = Some ([[[1, 0, 1, 5], [2, 1, 2, 3], [3, 3, 3, 0]], [[4, 0, 4, 0]]],
           [[[1, 0, 1, 5], [2, 1, 2, 3], [3, 3, 3, 0]], [[4, 0, 4, 0]]], 120)"
  by code_simp

theorem Bidirectional_joins_witness:
  "(\<exists>forwardOut n1 backwardOut n2.
       BatchSeqs (Forward demo_bidirectional) demo_seqs 100 = Some (forwardOut, n1)
     \<and> BatchSeqs (Backward demo_bidirectional) (map rev demo_seqs) n1 = Some (backwardOut, n2)
     \<and> map length (OutputSeqs forwardOut) = map length demo_seqs
     \<and> map length (OutputSeqs backwardOut) = map length demo_seqs
     \<and> (\<exists>res. Bidirectional_BatchSeqs demo_bidirectional demo_seqs 100 = Some (res, 120)
           \<and> ForwardOut res = forwardOut \<and> BackwardOut res = backwardOut
           \<and> length (Joined res) = length demo_seqs
           \<and> map (map Vector) (Joined res)
                = [[[1, 0, 1, 5], [2, 1, 2, 3], [3, 3, 3, 0]], [[4, 0, 4, 0]]]
           \<and> OutputSeqs (Out res)
                = [[[1, 0, 1, 5], [2, 1, 2, 3], [3, 3, 3, 0]], [[4, 0, 4, 0]]]))"
proof -
  have b2: "block_ok (demo_block\<lparr>Learner := Some [\<lparr>ref = 1, Vector = [5]\<rparr>]\<rparr>)"
    using demo_block_ok by (simp add: block_ok_def)
  from BlockSeqFunc_shape [OF demo_block_ok, of "Inr ''block''" demo_seqs 100]
  obtain forwardOut n1 where
    f: "BatchSeqs (Forward demo_bidirectional) demo_seqs 100 = Some (forwardOut, n1)"
    and sf: "map length (OutputSeqs forwardOut) = map length demo_seqs"
    by (auto simp: demo_bidirectional_def)
  from BlockSeqFunc_shape [OF b2, of "Inr ''block''" "map rev demo_seqs" n1]
  obtain backwardOut n2 where
    b: "BatchSeqs (Backward demo_bidirectional) (map rev demo_seqs) n1 = Some (backwardOut, n2)"
    and sb: "map length (OutputSeqs backwardOut) = map length demo_seqs"
    by (auto simp: demo_bidirectional_def comp_def)
  have o: "\<forall>joined n3. BatchSeqs (Output_fn demo_bidirectional) joined n3 \<noteq> None"
    by (simp add: demo_bidirectional_def identity_fn_def)
  from Bidirectional_joins [OF f b sf sb o] obtain res nxt' where
    run: "Bidirectional_BatchSeqs demo_bidirectional demo_seqs 100 = Some (res, nxt')"
    and parts: "ForwardOut res = forwardOut" "BackwardOut res = backwardOut"
      "length (Joined res) = length demo_seqs"
    by blast
  from Bidirectional_demo_eval run
  have "map (map Vector) (Joined res) = [[[1, 0, 1, 5], [2, 1, 2, 3], [3, 3, 3, 0]], [[4, 0, 4, 0]]]"
    "OutputSeqs (Out res) = [[[1, 0, 1, 5], [2, 1, 2, 3], [3, 3, 3, 0]], [[4, 0, 4, 0]]]"
    "nxt' = 120" by simp_all
  then show ?thesis using f b sf sb run parts
    by (intro exI [of _ forwardOut] exI [of _ n1] exI [of _ backwardOut] exI [of _ n2]) auto
qed

subsection \<open>Optional capabilities\<close>

text \<open>
  Claim C9, as amended. \<open>Serialize\<close> fails with an error that names the type of the first of
  \<open>Forward\<close>, \<open>Backward\<close>, \<open>Output\<close> that is not a serializer, and otherwise returns what
  \<open>SerializeSlice\<close> returns on the three serializers. \<open>Parameters\<close> has no failure: it returns
  the parameters of the sub-functions that are learners, in that order, and a sub-function
  that is not one contributes none; likewise \<open>BlockSeqFunc.Parameters\<close> returns nil for a
  Block that is not a learner.
\<close>

theorem Serialize_fails_Parameters_skip:
  "Bidirectional_Serialize serializeSlice b =
     (case sf_Serializer (Forward b) of
        None \<Rightarrow> Inl (''type cannot be serialized: '' @ sf_Type (Forward b))
      | Some s1 \<Rightarrow>
         (case sf_Serializer (Backward b) of
            None \<Rightarrow> Inl (''type cannot be serialized: '' @ sf_Type (Backward b))
          | Some s2 \<Rightarrow>
             (case sf_Serializer (Output_fn b) of
                None \<Rightarrow> Inl (''type cannot be serialized: '' @ sf_Type (Output_fn b))
              | Some s3 \<Rightarrow> serializeSlice [s1, s2, s3])))
   \<and> Bidirectional_Parameters b =
       (case sf_Learner (Forward b) of Some ps \<Rightarrow> ps | None \<Rightarrow> [])
       @ (case sf_Learner (Backward b) of Some ps \<Rightarrow> ps | None \<Rightarrow> [])
       @ (case sf_Learner (Output_fn b) of Some ps \<Rightarrow> ps | None \<Rightarrow> [])
   \<and> BlockSeqFunc_Parameters r = (case Learner r of Some ps \<Rightarrow> ps | None \<Rightarrow> [])"
  by (simp add: Bidirectional_Serialize_def Bidirectional_Parameters_def
      BlockSeqFunc_Parameters_def split: option.splits)

text \<open>
  The claim as stated fails: the output function of the demo composer is not a learner,
  and the parameters request returns the backward function's parameters all the same; the
  forward function's Block is not a learner, and its unroller reports no parameters.
\<close>

theorem Parameters_skip_counterexample:
  "sf_Learner (Output_fn demo_bidirectional) = None
   \<and> Bidirectional_Parameters demo_bidirectional = [\<lparr>ref = 1, Vector = [5]\<rparr>]
   \<and> Learner demo_block = None
   \<and> BlockSeqFunc_Parameters demo_block = []"
  by (simp add: demo_bidirectional_def identity_fn_def Bidirectional_Parameters_def
      BlockSeqFunc_def BlockSeqFunc_Parameters_def demo_block_def)

theorem Serialize_fails_Parameters_skip_witness:
  "sf_Serializer (Output_fn demo_bidirectional) = None
   \<and> Bidirectional_Serialize (\<lambda>slice. Inr ''bytes'') demo_bidirectional
       = Inl ''type cannot be serialized: identity''
   \<and> Bidirectional_Parameters demo_bidirectional = [\<lparr>ref = 1, Vector = [5]\<rparr>]"
  using Serialize_fails_Parameters_skip [of "\<lambda>slice. Inr ''bytes''" demo_bidirectional demo_block]
  by (simp add: demo_bidirectional_def identity_fn_def BlockSeqFunc_def
      BlockSeqFunc_Parameters_def demo_block_def)

subsection \<open>Splitting the combiner's gradient\<close>

lemma foldM_upt_inv:
  assumes "foldM f [0..<k] s = Some s'" and "I 0 s"
    and "\<And>i a b. i < k \<Longrightarrow> I i a \<Longrightarrow> f i a = Some b \<Longrightarrow> I (Suc i) b"
  shows "I k s'"
  using assms
proof (induction k arbitrary: s')
  case 0
  then show ?case by simp
next
  case (Suc k)
  from Suc.prems(1) obtain a where a: "foldM f [0..<k] s = Some a" and b: "f k a = Some s'"
    by (auto simp: foldM_snoc split: bind_splits)
  have "I k a" using Suc.IH [OF a Suc.prems(2)] Suc.prems(3) by simp
  then show ?case using Suc.prems(3) [of k a s'] b by simp
qed

lemma restrict_delete:
  "(g |` (- R))(k := None) = g |` (- insert k R)"
  by (auto simp: restrict_map_def fun_eq_iff)

lemma lookup_vec_restrict: "k \<notin> R \<Longrightarrow> lookup_vec (g |` (- R)) k = lookup_vec g k"
  by (simp add: lookup_vec_def)

lemma split_time_loop:
  assumes d: "distinct (map ref joinedSeq)"
    and w: "\<forall>v\<in>set joinedSeq. forwLen \<le> length (lookup_vec g0 (ref v))"
  shows "k \<le> length joinedSeq \<Longrightarrow>
    \<exists>subForw subBack.
      foldM (split_time forwLen joinedSeq) [0..<k]
          (replicate (length joinedSeq) [], replicate (length joinedSeq) [], g0)
        = Some (subForw, subBack, g0 |` (- ref ` set (take k joinedSeq)))
    \<and> length subForw = length joinedSeq \<and> length subBack = length joinedSeq
    \<and> (\<forall>t<k. subForw ! t = take forwLen (lookup_vec g0 (ref (joinedSeq ! t)))
             \<and> subBack ! (length joinedSeq - (t + 1))
                  = drop forwLen (lookup_vec g0 (ref (joinedSeq ! t))))"
proof (induction k)
  case 0
  then show ?case by simp
next
  case (Suc k)
  define N where "N = length joinedSeq"
  from Suc obtain subForw subBack where
    f: "foldM (split_time forwLen joinedSeq) [0..<k] (replicate N [], replicate N [], g0)
        = Some (subForw, subBack, g0 |` (- ref ` set (take k joinedSeq)))"
    and len: "length subForw = N" "length subBack = N"
    and nth: "\<forall>t<k. subForw ! t = take forwLen (lookup_vec g0 (ref (joinedSeq ! t)))
             \<and> subBack ! (N - (t + 1)) = drop forwLen (lookup_vec g0 (ref (joinedSeq ! t)))"
    unfolding N_def by auto
  have k: "k < N" using Suc.prems by (simp add: N_def)
  define v where "v = joinedSeq ! k"
  have vin: "v \<in> set joinedSeq" using k by (simp add: v_def N_def)
  have "joinedSeq = take k joinedSeq @ v # drop (Suc k) joinedSeq"
    using k by (simp add: v_def N_def id_take_nth_drop)
  then have "distinct (map ref (take k joinedSeq @ v # drop (Suc k) joinedSeq))"
    using d by simp
  then have fresh: "ref v \<notin> ref ` set (take k joinedSeq)" by auto
  have lv: "lookup_vec (g0 |` (- ref ` set (take k joinedSeq))) (ref v) = lookup_vec g0 (ref v)"
    using fresh by (rule lookup_vec_restrict)
  have wide: "forwLen \<le> length (lookup_vec g0 (ref v))" using w vin by simp
  have tk: "ref ` set (take (Suc k) joinedSeq) = insert (ref v) (ref ` set (take k joinedSeq))"
    using k by (simp add: take_Suc_conv_app_nth v_def N_def)
  define subForw' where "subForw' = subForw[k := take forwLen (lookup_vec g0 (ref v))]"
  define subBack' where "subBack' = subBack[N - (k + 1) := drop forwLen (lookup_vec g0 (ref v))]"
  have body: "split_time forwLen joinedSeq k (subForw, subBack, g0 |` (- ref ` set (take k joinedSeq)))
      = Some (subForw', subBack', g0 |` (- ref ` set (take (Suc k) joinedSeq)))"
    using wide lv
    by (simp add: split_time_def Let_def v_def [symmetric] tk
        subForw'_def subBack'_def N_def Compl_insert)
  have "\<forall>t<Suc k. subForw' ! t = take forwLen (lookup_vec g0 (ref (joinedSeq ! t)))
             \<and> subBack' ! (N - (t + 1)) = drop forwLen (lookup_vec g0 (ref (joinedSeq ! t)))"
  proof (intro allI impI)
    fix t assume t: "t < Suc k"
    show "subForw' ! t = take forwLen (lookup_vec g0 (ref (joinedSeq ! t)))
             \<and> subBack' ! (N - (t + 1)) = drop forwLen (lookup_vec g0 (ref (joinedSeq ! t)))"
    proof (cases "t = k")
      case True
      then show ?thesis using k len by (simp add: subForw'_def subBack'_def v_def)
    next
      case False
      then have tk': "t < k" using t by simp
      then have "N - (t + 1) \<noteq> N - (k + 1)" using k by simp
      then show ?thesis using nth tk' False by (simp add: subForw'_def subBack'_def)
    qed
  qed
  then show ?case using f body len
    by (simp add: foldM_snoc N_def [symmetric] subForw'_def subBack'_def)
qed

lemma distinct_mid: "distinct (xs @ ys @ zs) \<Longrightarrow> distinct ys \<and> set xs \<inter> set ys = {}"
  by auto

lemma concat_take_Suc:
  "k < length xss \<Longrightarrow> concat (take (Suc k) xss) = concat (take k xss) @ xss ! k"
  by (simp add: take_Suc_conv_app_nth)

lemma split_lane_loop:
  assumes d: "distinct (map ref (concat joined))"
    and w: "\<forall>v\<in>set (concat joined). forwLen \<le> length (lookup_vec g0 (ref v))"
    and n: "length joined \<le> numUp"
  shows "k \<le> length joined \<Longrightarrow>
    \<exists>fu bu.
      foldM (split_lane forwLen joined) [0..<k] (replicate numUp [], replicate numUp [], g0)
        = Some (fu, bu, g0 |` (- ref ` set (concat (take k joined))))
    \<and> length fu = numUp \<and> length bu = numUp
    \<and> (\<forall>lane<k. length (fu ! lane) = length (joined ! lane)
          \<and> length (bu ! lane) = length (joined ! lane)
          \<and> (\<forall>t<length (joined ! lane).
                fu ! lane ! t = take forwLen (lookup_vec g0 (ref (joined ! lane ! t)))
              \<and> bu ! lane ! (length (joined ! lane) - (t + 1))
                  = drop forwLen (lookup_vec g0 (ref (joined ! lane ! t)))))
    \<and> (\<forall>lane<numUp. k \<le> lane \<longrightarrow> fu ! lane = [] \<and> bu ! lane = [])"
proof (induction k)
  case 0
  then show ?case by simp
next
  case (Suc k)
  then obtain fu bu where
    f: "foldM (split_lane forwLen joined) [0..<k] (replicate numUp [], replicate numUp [], g0)
        = Some (fu, bu, g0 |` (- ref ` set (concat (take k joined))))"
    and len: "length fu = numUp" "length bu = numUp"
    and nth: "\<forall>lane<k. length (fu ! lane) = length (joined ! lane)
          \<and> length (bu ! lane) = length (joined ! lane)
          \<and> (\<forall>t<length (joined ! lane).
                fu ! lane ! t = take forwLen (lookup_vec g0 (ref (joined ! lane ! t)))
              \<and> bu ! lane ! (length (joined ! lane) - (t + 1))
                  = drop forwLen (lookup_vec g0 (ref (joined ! lane ! t))))"
    and rest: "\<forall>lane<numUp. k \<le> lane \<longrightarrow> fu ! lane = [] \<and> bu ! lane = []"
    by auto
  have k: "k < length joined" using Suc.prems by simp
  define row where "row = joined ! k"
  define R where "R = ref ` set (concat (take k joined))"
  define gk where "gk = g0 |` (- R)"
  have "joined = take k joined @ row # drop (Suc k) joined"
    using k by (simp add: row_def id_take_nth_drop)
  then have "concat joined = concat (take k joined) @ row @ concat (drop (Suc k) joined)"
    by (metis concat.simps(2) concat_append)
  then have "distinct (map ref (concat (take k joined)) @ map ref row
      @ map ref (concat (drop (Suc k) joined)))"
    using d by simp
  from distinct_mid [OF this] have drow: "distinct (map ref row)"
    and "set (map ref (concat (take k joined))) \<inter> set (map ref row) = {}"
    by blast+
  then have disj: "ref ` set row \<inter> R = {}" unfolding R_def set_map by blast
  have "row \<in> set joined" using k by (simp add: row_def)
  then have rowin: "set row \<subseteq> set (concat joined)" by auto
  have same: "lookup_vec gk (ref v) = lookup_vec g0 (ref v)" if "v \<in> set row" for v
    unfolding gk_def using disj that by (intro lookup_vec_restrict) auto
  have wk: "\<forall>v\<in>set row. forwLen \<le> length (lookup_vec gk (ref v))"
    using w rowin same by auto
  from split_time_loop [OF drow wk order_refl] obtain subForw subBack where
    st: "foldM (split_time forwLen row) [0..<length row]
          (replicate (length row) [], replicate (length row) [], gk)
        = Some (subForw, subBack, gk |` (- ref ` set row))"
    and slen: "length subForw = length row" "length subBack = length row"
    and snth: "\<forall>t<length row. subForw ! t = take forwLen (lookup_vec gk (ref (row ! t)))
             \<and> subBack ! (length row - (t + 1)) = drop forwLen (lookup_vec gk (ref (row ! t)))"
    by auto
  have g': "gk |` (- ref ` set row) = g0 |` (- ref ` set (concat (take (Suc k) joined)))"
    using k by (auto simp: gk_def R_def concat_take_Suc row_def restrict_map_def fun_eq_iff)
  have body: "split_lane forwLen joined k (fu, bu, gk)
      = Some (fu[k := subForw], bu[k := subBack],
              g0 |` (- ref ` set (concat (take (Suc k) joined))))"
    using st k n len by (simp add: split_lane_def Let_def row_def [symmetric] g')
  have "\<forall>lane<Suc k. length (fu[k := subForw] ! lane) = length (joined ! lane)
          \<and> length (bu[k := subBack] ! lane) = length (joined ! lane)
          \<and> (\<forall>t<length (joined ! lane).
                fu[k := subForw] ! lane ! t = take forwLen (lookup_vec g0 (ref (joined ! lane ! t)))
              \<and> bu[k := subBack] ! lane ! (length (joined ! lane) - (t + 1))
                  = drop forwLen (lookup_vec g0 (ref (joined ! lane ! t))))"
  proof (intro allI impI)
    fix lane assume lane: "lane < Suc k"
    show "length (fu[k := subForw] ! lane) = length (joined ! lane)
          \<and> length (bu[k := subBack] ! lane) = length (joined ! lane)
          \<and> (\<forall>t<length (joined ! lane).
                fu[k := subForw] ! lane ! t = take forwLen (lookup_vec g0 (ref (joined ! lane ! t)))
              \<and> bu[k := subBack] ! lane ! (length (joined ! lane) - (t + 1))
                  = drop forwLen (lookup_vec g0 (ref (joined ! lane ! t))))"
    proof (cases "lane = k")
      case True
      have "lookup_vec gk (ref (row ! t)) = lookup_vec g0 (ref (row ! t))" if "t < length row" for t
        using same that by simp
      then show ?thesis using True k n len slen snth by (simp add: row_def [symmetric])
    next
      case False
      then show ?thesis using lane nth by simp
    qed
  qed
  moreover have "\<forall>lane<numUp. Suc k \<le> lane \<longrightarrow>
      fu[k := subForw] ! lane = [] \<and> bu[k := subBack] ! lane = []"
    using rest by simp
  ultimately show ?case using f body len
    by (simp add: foldM_snoc gk_def R_def)
qed

lemma seqOutputSize_uniform:
  "\<forall>s\<in>set seqs. \<forall>v\<in>set s. length v = w \<Longrightarrow> \<exists>s\<in>set seqs. s \<noteq> [] \<Longrightarrow> seqOutputSize seqs = w"
  by (induction seqs) auto

text \<open>
  Claim C2. Let the joined variables be pairwise distinct, let the combiner's gradient
  return \<open>g2\<close> on the map with the zeroed joined entries, let \<open>upstream\<close> have at least as
  many lanes as there are joined sequences, and let every joined variable's entry in \<open>g2\<close>
  be at least \<open>forwLen\<close> wide, where \<open>forwLen = seqOutputSize\<close> of the forward outputs (the
  common width of the forward vectors when there is one and some sequence is not empty).
  Then the upstream handed to the forward result has at (lane, time) the first \<open>forwLen\<close>
  components of the joined variable's entry, the upstream handed to the backward result
  has the remaining components at (lane, \<open>N - (time + 1)\<close>), \<open>N\<close> the lane's length, the
  joined entries are gone from the map, and \<open>Gradient\<close> is the forward result's gradient
  followed by the backward result's on these.
\<close>

theorem Gradient_splits_at_forward_width:
  fixes b :: bidirectionalResult
  defines "forwLen \<equiv> seqOutputSize (OutputSeqs (ForwardOut b))"
  assumes d: "distinct (map ref (concat (Joined b)))"
    and out: "rs_Gradient (Out b) upstream (zero_joined (Joined b) g) = Some g2"
    and n: "length (Joined b) \<le> length upstream"
    and w: "\<forall>v\<in>set (concat (Joined b)). forwLen \<le> length (lookup_vec g2 (ref v))"
  shows "\<exists>forwUpstream backUpstream.
      length forwUpstream = length upstream \<and> length backUpstream = length upstream
    \<and> (\<forall>lane<length (Joined b).
          length (forwUpstream ! lane) = length (Joined b ! lane)
        \<and> length (backUpstream ! lane) = length (Joined b ! lane)
        \<and> (\<forall>t<length (Joined b ! lane).
              forwUpstream ! lane ! t
                = take forwLen (lookup_vec g2 (ref (Joined b ! lane ! t)))
            \<and> backUpstream ! lane ! (length (Joined b ! lane) - (t + 1))
                = drop forwLen (lookup_vec g2 (ref (Joined b ! lane ! t)))))
    \<and> bidirectionalResult_Gradient b upstream g =
        rs_Gradient (ForwardOut b) forwUpstream (g2 |` (- ref ` set (concat (Joined b))))
          \<bind> rs_Gradient (BackwardOut b) backUpstream
    \<and> ((\<forall>s\<in>set (OutputSeqs (ForwardOut b)). \<forall>v\<in>set s. length v = width)
          \<and> (\<exists>s\<in>set (OutputSeqs (ForwardOut b)). s \<noteq> []) \<longrightarrow> forwLen = width)"
proof -
  from split_lane_loop [OF d w n order_refl] obtain fu bu where
    f: "foldM (split_lane forwLen (Joined b)) [0..<length (Joined b)]
          (replicate (length upstream) [], replicate (length upstream) [], g2)
        = Some (fu, bu, g2 |` (- ref ` set (concat (Joined b))))"
    and len: "length fu = length upstream" "length bu = length upstream"
    and nth: "\<forall>lane<length (Joined b). length (fu ! lane) = length (Joined b ! lane)
          \<and> length (bu ! lane) = length (Joined b ! lane)
          \<and> (\<forall>t<length (Joined b ! lane).
                fu ! lane ! t = take forwLen (lookup_vec g2 (ref (Joined b ! lane ! t)))
              \<and> bu ! lane ! (length (Joined b ! lane) - (t + 1))
                  = drop forwLen (lookup_vec g2 (ref (Joined b ! lane ! t))))"
    by auto
  have "bidirectionalResult_Gradient b upstream g =
        rs_Gradient (ForwardOut b) fu (g2 |` (- ref ` set (concat (Joined b))))
          \<bind> rs_Gradient (BackwardOut b) bu"
    using out f
    by (simp add: bidirectionalResult_Gradient_def split_upstream_def forwLen_def Let_def)
  moreover have "(\<forall>s\<in>set (OutputSeqs (ForwardOut b)). \<forall>v\<in>set s. length v = width)
          \<and> (\<exists>s\<in>set (OutputSeqs (ForwardOut b)). s \<noteq> []) \<longrightarrow> forwLen = width"
    unfolding forwLen_def using seqOutputSize_uniform by blast
  ultimately show ?thesis using len nth by blast
qed

lemma demo_result_eval:
  "map_option (\<lambda>g. map g [1, 2, 20, 21])
     (bidirectionalResult_Gradient demo_result [[[10, 20], [30, 40]]] demo_gradient)
   = Some [Some [10, 30], Some [40, 20], None, None]"
  by (simp add: bidirectionalResult_Gradient_def demo_result_def demo_gradient_def
      zero_joined_def split_upstream_def split_lane_def split_time_def add_to_def
      lookup_vec_def Let_def numeral_2_eq_2)

theorem Gradient_splits_at_forward_width_witness:
  "distinct (map ref (concat (Joined demo_result)))
   \<and> rs_Gradient (Out demo_result) [[[10, 20], [30, 40]]]
        (zero_joined (Joined demo_result) demo_gradient)
       = Some (demo_gradient(20 \<mapsto> [10, 20], 21 \<mapsto> [30, 40]))
   \<and> length (Joined demo_result) \<le> length [[[10, 20], [30, 40 :: real]]]
   \<and> seqOutputSize (OutputSeqs (ForwardOut demo_result)) = 1
   \<and> (\<exists>forwUpstream backUpstream.
         forwUpstream ! 0 ! 0 = [10] \<and> forwUpstream ! 0 ! 1 = [30]
       \<and> backUpstream ! 0 ! 1 = [20] \<and> backUpstream ! 0 ! 0 = [40]
       \<and> bidirectionalResult_Gradient demo_result [[[10, 20], [30, 40]]] demo_gradient =
            rs_Gradient (ForwardOut demo_result) forwUpstream
              ((demo_gradient(20 \<mapsto> [10, 20], 21 \<mapsto> [30, 40]))
                 |` (- ref ` set (concat (Joined demo_result))))
              \<bind> rs_Gradient (BackwardOut demo_result) backUpstream)
   \<and> map_option (\<lambda>g. map g [1, 2, 20, 21])
        (bidirectionalResult_Gradient demo_result [[[10, 20], [30, 40]]] demo_gradient)
       = Some [Some [10, 30], Some [40, 20], None, None]"
proof -
  define g2 where "g2 = demo_gradient(20 \<mapsto> [10, 20], 21 \<mapsto> [30, 40 :: real])"
  have j: "Joined demo_result = [[\<lparr>ref = 20, Vector = [1, 4]\<rparr>, \<lparr>ref = 21, Vector = [2, 3]\<rparr>]]"
    by (simp add: demo_result_def)
  have d: "distinct (map ref (concat (Joined demo_result)))" by (simp add: j)
  have z: "zero_joined (Joined demo_result) demo_gradient
      = demo_gradient(20 \<mapsto> [0, 0], 21 \<mapsto> [0, 0])"
    by (simp add: j zero_joined_def numeral_2_eq_2)
  have out: "rs_Gradient (Out demo_result) [[[10, 20], [30, 40]]]
        (zero_joined (Joined demo_result) demo_gradient) = Some g2"
    unfolding z by (auto simp: demo_result_def add_to_def g2_def fun_eq_iff)
  have n: "length (Joined demo_result) \<le> length [[[10, 20], [30, 40 :: real]]]"
    by (simp add: j)
  have fl: "seqOutputSize (OutputSeqs (ForwardOut demo_result)) = 1"
    by (simp add: demo_result_def)
  have w: "\<forall>v\<in>set (concat (Joined demo_result)).
      seqOutputSize (OutputSeqs (ForwardOut demo_result)) \<le> length (lookup_vec g2 (ref v))"
    unfolding fl by (simp add: j g2_def lookup_vec_def)
  from Gradient_splits_at_forward_width [OF d out n w, where width = 1] obtain fu bu where
    c: "length fu = length [[[10, 20], [30, 40 :: real]]] \<and> length bu = length [[[10, 20], [30, 40 :: real]]]
    \<and> (\<forall>lane<length (Joined demo_result).
          length (fu ! lane) = length (Joined demo_result ! lane)
        \<and> length (bu ! lane) = length (Joined demo_result ! lane)
        \<and> (\<forall>t<length (Joined demo_result ! lane).
              fu ! lane ! t
                = take (seqOutputSize (OutputSeqs (ForwardOut demo_result)))
                    (lookup_vec g2 (ref (Joined demo_result ! lane ! t)))
            \<and> bu ! lane ! (length (Joined demo_result ! lane) - (t + 1))
                = drop (seqOutputSize (OutputSeqs (ForwardOut demo_result)))
                    (lookup_vec g2 (ref (Joined demo_result ! lane ! t)))))
    \<and> bidirectionalResult_Gradient demo_result [[[10, 20], [30, 40]]] demo_gradient =
        rs_Gradient (ForwardOut demo_result) fu (g2 |` (- ref ` set (concat (Joined demo_result))))
          \<bind> rs_Gradient (BackwardOut demo_result) bu
    \<and> ((\<forall>s\<in>set (OutputSeqs (ForwardOut demo_result)). \<forall>v\<in>set s. length v = 1)
          \<and> (\<exists>s\<in>set (OutputSeqs (ForwardOut demo_result)). s \<noteq> [])
         \<longrightarrow> seqOutputSize (OutputSeqs (ForwardOut demo_result)) = 1)"
    by (elim exE)
  have nth: "\<forall>lane<length (Joined demo_result).
          length (fu ! lane) = length (Joined demo_result ! lane)
        \<and> length (bu ! lane) = length (Joined demo_result ! lane)
        \<and> (\<forall>t<length (Joined demo_result ! lane).
              fu ! lane ! t
                = take (seqOutputSize (OutputSeqs (ForwardOut demo_result)))
                    (lookup_vec g2 (ref (Joined demo_result ! lane ! t)))
            \<and> bu ! lane ! (length (Joined demo_result ! lane) - (t + 1))
                = drop (seqOutputSize (OutputSeqs (ForwardOut demo_result)))
                    (lookup_vec g2 (ref (Joined demo_result ! lane ! t))))"
    using c by (elim conjE)
  have run: "bidirectionalResult_Gradient demo_result [[[10, 20], [30, 40]]] demo_gradient =
        rs_Gradient (ForwardOut demo_result) fu (g2 |` (- ref ` set (concat (Joined demo_result))))
          \<bind> rs_Gradient (BackwardOut demo_result) bu"
    using c by (elim conjE)
  have l: "lookup_vec g2 20 = [10, 20]" "lookup_vec g2 21 = [30, 40]"
    by (simp_all add: g2_def lookup_vec_def)
  have js: "0 < length (Joined demo_result)" "0 < length (Joined demo_result ! 0)"
    "1 < length (Joined demo_result ! 0)"
    "Joined demo_result ! 0 ! 0 = \<lparr>ref = 20, Vector = [1, 4]\<rparr>"
    "Joined demo_result ! 0 ! 1 = \<lparr>ref = 21, Vector = [2, 3]\<rparr>"
    "length (Joined demo_result ! 0) = 2"
    by (simp_all add: j)
  have inner: "\<forall>t<length (Joined demo_result ! 0).
              fu ! 0 ! t
                = take (seqOutputSize (OutputSeqs (ForwardOut demo_result)))
                    (lookup_vec g2 (ref (Joined demo_result ! 0 ! t)))
            \<and> bu ! 0 ! (length (Joined demo_result ! 0) - (t + 1))
                = drop (seqOutputSize (OutputSeqs (ForwardOut demo_result)))
                    (lookup_vec g2 (ref (Joined demo_result ! 0 ! t)))"
    using nth [rule_format, of 0, OF js(1)] by (elim conjE)
  have a: "fu ! 0 ! 0 = [10] \<and> bu ! 0 ! 1 = [20]"
    using inner [rule_format, of 0] js by (simp add: fl l)
  have b: "fu ! 0 ! 1 = [30] \<and> bu ! 0 ! 0 = [40]"
    using inner [rule_format, of 1] js by (simp add: fl l)
  have split: "\<exists>forwUpstream backUpstream.
         forwUpstream ! 0 ! 0 = [10] \<and> forwUpstream ! 0 ! 1 = [30]
       \<and> backUpstream ! 0 ! 1 = [20] \<and> backUpstream ! 0 ! 0 = [40]
       \<and> bidirectionalResult_Gradient demo_result [[[10, 20], [30, 40]]] demo_gradient =
            rs_Gradient (ForwardOut demo_result) forwUpstream
              (g2 |` (- ref ` set (concat (Joined demo_result))))
              \<bind> rs_Gradient (BackwardOut demo_result) backUpstream"
    using a b run by (intro exI [of _ fu] exI [of _ bu]) simp
  note out' = out [unfolded g2_def] and split' = split [unfolded g2_def]
  show ?thesis
    by (rule conjI [OF d conjI [OF out' conjI [OF n conjI [OF fl
          conjI [OF split' demo_result_eval]]]]])
qed

subsection \<open>Draining the gradient map\<close>

lemma foldM_list_inv_gen:
  assumes "foldM f xs s = Some s'" and "I pre s"
    and "\<And>ys x a b. I ys a \<Longrightarrow> x \<in> set xs \<Longrightarrow> f x a = Some b \<Longrightarrow> I (ys @ [x]) b"
  shows "I (pre @ xs) s'"
  using assms
proof (induction xs arbitrary: pre s)
  case Nil
  then show ?case by simp
next
  case (Cons x xs)
  from Cons.prems(1) obtain a where a: "f x s = Some a" and r: "foldM f xs a = Some s'"
    by (auto split: bind_splits)
  have "I (pre @ [x]) a" using Cons.prems(2,3) a by simp
  from Cons.IH [OF r this] Cons.prems(3) show ?case by simp
qed

lemma foldM_list_inv:
  assumes "foldM f xs s = Some s'" and "I [] s"
    and "\<And>ys x a b. I ys a \<Longrightarrow> x \<in> set xs \<Longrightarrow> f x a = Some b \<Longrightarrow> I (ys @ [x]) b"
  shows "I xs s'"
  using foldM_list_inv_gen [OF assms(1), of I "[]"] assms(2,3) by simp

lemma zero_row_dom:
  "dom (fold (\<lambda>joinedVar g. g(ref joinedVar \<mapsto> replicate (length (Vector joinedVar)) 0)) row g)
     = dom g \<union> ref ` set row"
  by (induction row arbitrary: g) auto

lemma zero_joined_dom: "dom (zero_joined joined g) = dom g \<union> ref ` set (concat joined)"
  unfolding zero_joined_def
  by (induction joined arbitrary: g) (auto simp: zero_row_dom)

lemma split_time_dom:
  "split_time forwLen joinedSeq t (sf, sb, g) = Some (sf', sb', g') \<Longrightarrow>
   dom g' = dom g - {ref (joinedSeq ! t)}"
  by (auto simp: split_time_def Let_def split: if_splits)

lemma split_lane_dom:
  assumes "split_lane forwLen joined lane (fu, bu, g) = Some (fu', bu', g')"
  shows "dom g' = dom g - ref ` set (joined ! lane)"
proof -
  define row where "row = joined ! lane"
  from assms obtain sf sb where
    f: "foldM (split_time forwLen row) [0..<length row]
          (replicate (length row) [], replicate (length row) [], g) = Some (sf, sb, g')"
    by (auto simp: split_lane_def Let_def row_def split: bind_splits if_splits)
  have "(\<lambda>k (a, b, c). dom c = dom g - ref ` set (take k row)) (length row) (sf, sb, g')"
  proof (rule foldM_upt_inv [OF f])
    show "case (replicate (length row) [], replicate (length row) [], g) of
        (a, b, c) \<Rightarrow> dom c = dom g - ref ` set (take 0 row)" by simp
  next
    fix i a b
    assume i: "i < length row"
      and inv: "case a of (a, b, c) \<Rightarrow> dom c = dom g - ref ` set (take i row)"
      and st: "split_time forwLen row i a = Some b"
    obtain a1 a2 a3 where a: "a = (a1, a2, a3)" by (cases a)
    obtain b1 b2 b3 where b: "b = (b1, b2, b3)" by (cases b)
    from split_time_dom [OF st [unfolded a b]] inv a i
    show "case b of (a, b, c) \<Rightarrow> dom c = dom g - ref ` set (take (Suc i) row)"
      by (auto simp: b take_Suc_conv_app_nth)
  qed
  then show ?thesis by (simp add: row_def)
qed

lemma split_upstream_dom:
  assumes "split_upstream b n g = Some (fu, bu, g')"
  shows "dom g' = dom g - ref ` set (concat (Joined b))"
proof -
  define joined where "joined = Joined b"
  define forwLen where "forwLen = seqOutputSize (OutputSeqs (ForwardOut b))"
  from assms have f: "foldM (split_lane forwLen joined) [0..<length joined]
       (replicate n [], replicate n [], g) = Some (fu, bu, g')"
    by (simp add: split_upstream_def joined_def forwLen_def)
  have "(\<lambda>k (a, b, c). dom c = dom g - ref ` set (concat (take k joined)))
      (length joined) (fu, bu, g')"
  proof (rule foldM_upt_inv [OF f])
    show "case (replicate n [], replicate n [], g) of
        (a, b, c) \<Rightarrow> dom c = dom g - ref ` set (concat (take 0 joined))" by simp
  next
    fix i a b
    assume i: "i < length joined"
      and inv: "case a of (a, b, c) \<Rightarrow> dom c = dom g - ref ` set (concat (take i joined))"
      and st: "split_lane forwLen joined i a = Some b"
    obtain a1 a2 a3 where a: "a = (a1, a2, a3)" by (cases a)
    obtain b1 b2 b3 where b: "b = (b1, b2, b3)" by (cases b)
    from split_lane_dom [OF st [unfolded a b]] inv a i
    show "case b of (a, b, c) \<Rightarrow> dom c = dom g - ref ` set (concat (take (Suc i) joined))"
      by (auto simp: b take_Suc_conv_app_nth)
  qed
  then show ?thesis by (simp add: joined_def)
qed

lemma bidirectional_drained:
  assumes c: "no_new_keys (Out b)" "no_new_keys (ForwardOut b)" "no_new_keys (BackwardOut b)"
    and run: "bidirectionalResult_Gradient b upstream g = Some g'"
  shows "dom g' \<subseteq> dom g - ref ` set (concat (Joined b))"
proof -
  from run have r: "rs_Gradient (Out b) upstream (zero_joined (Joined b) g) \<bind>
      (\<lambda>g2. split_upstream b (length upstream) g2 \<bind>
        (\<lambda>(fu, bu, g3). rs_Gradient (ForwardOut b) fu g3 \<bind>
           rs_Gradient (BackwardOut b) bu)) = Some g'"
    by (simp add: bidirectionalResult_Gradient_def Let_def)
  then obtain g2 where
    o: "rs_Gradient (Out b) upstream (zero_joined (Joined b) g) = Some g2"
    and r2: "split_upstream b (length upstream) g2 \<bind>
        (\<lambda>(fu, bu, g3). rs_Gradient (ForwardOut b) fu g3 \<bind>
           rs_Gradient (BackwardOut b) bu) = Some g'"
    by (cases "rs_Gradient (Out b) upstream (zero_joined (Joined b) g)") simp_all
  then obtain fu bu g3 where
    s: "split_upstream b (length upstream) g2 = Some (fu, bu, g3)"
    and r3: "rs_Gradient (ForwardOut b) fu g3 \<bind> rs_Gradient (BackwardOut b) bu = Some g'"
    by (cases "split_upstream b (length upstream) g2") auto
  then obtain g4 where
    f: "rs_Gradient (ForwardOut b) fu g3 = Some g4"
    and k: "rs_Gradient (BackwardOut b) bu g4 = Some g'"
    by (cases "rs_Gradient (ForwardOut b) fu g3") simp_all
  have 1: "dom g2 \<subseteq> dom g \<union> ref ` set (concat (Joined b))"
    using c(1) [unfolded no_new_keys_def, rule_format, OF o]
    by (simp add: zero_joined_dom)
  have 2: "dom g3 = dom g2 - ref ` set (concat (Joined b))"
    by (rule split_upstream_dom [OF s])
  have 3: "dom g4 \<subseteq> dom g3" by (rule c(2) [unfolded no_new_keys_def, rule_format, OF f])
  have 4: "dom g' \<subseteq> dom g4" by (rule c(3) [unfolded no_new_keys_def, rule_format, OF k])
  have "dom g' \<subseteq> dom g2 - ref ` set (concat (Joined b))" using 2 3 4 by simp
  also have "\<dots> \<subseteq> dom g - ref ` set (concat (Joined b))" using 1 by auto
  finally show ?thesis .
qed

lemma idx_int_Some: "idx_int xs (int l) = Some y \<Longrightarrow> l < length xs \<and> y = xs ! l"
  by (auto simp: idx_int_def split: if_splits)

lemma grad_prepare_dom:
  assumes run: "grad_prepare step upstream t su (int l) (up, g) = Some (up', g')"
    and vars: "InStateVars step ! l = Some sv" "InputVars step ! l = Some iv"
      "step_Inputs step ! l = Some x"
  shows "dom g' = insert (ref sv) (dom g)
           \<union> (if Constant x (g(ref sv \<mapsto> replicate (length (Vector sv)) 0)) then {}
              else {ref iv})"
proof -
  from run obtain stateSlot stateVar row u suv inputSlot input' g2 where
    a: "idx_int (InStateVars step) (int l) = Some stateSlot" "stateSlot = Some stateVar"
    and b: "idx_int (step_Inputs step) (int l) = Some inputSlot" "inputSlot = Some input'"
    and c: "(if \<not> Constant input' (g(ref stateVar \<mapsto> replicate (length (Vector stateVar)) 0)) then
                idx_int (InputVars step) (int l) \<bind> (\<lambda>varSlot. varSlot \<bind> (\<lambda>inputVar.
                  Some ((g(ref stateVar \<mapsto> replicate (length (Vector stateVar)) 0))
                    (ref inputVar \<mapsto> replicate (length (Vector inputVar)) 0))))
              else Some (g(ref stateVar \<mapsto> replicate (length (Vector stateVar)) 0))) = Some g2"
    and d: "g' = g2"
    unfolding grad_prepare_def Let_def
    by (auto simp: bind_eq_Some_conv)
  have sv: "stateVar = sv" using idx_int_Some [OF a(1)] a(2) vars(1) by simp
  have x: "input' = x" using idx_int_Some [OF b(1)] b(2) vars(3) by simp
  show ?thesis
  proof (cases "Constant x (g(ref sv \<mapsto> replicate (length (Vector sv)) 0))")
    case True
    then show ?thesis using c d sv x by auto
  next
    case False
    then obtain varSlot inputVar where
      e: "idx_int (InputVars step) (int l) = Some varSlot" "varSlot = Some inputVar"
      and f: "g2 = (g(ref sv \<mapsto> replicate (length (Vector sv)) 0))
                    (ref inputVar \<mapsto> replicate (length (Vector inputVar)) 0)"
      using c sv x by (auto simp: bind_eq_Some_conv)
    have "inputVar = iv" using idx_int_Some [OF e(1)] e(2) vars(2) by simp
    then show ?thesis using False f d by auto
  qed
qed

lemma grad_collect_dom:
  assumes run: "grad_collect step (int l) (su, g) = Some (su', g')"
    and vars: "InStateVars step ! l = Some sv" "InputVars step ! l = Some iv"
      "step_Inputs step ! l = Some x"
    and frame: "\<forall>u g. dom (PropagateGradient x u g) = dom g"
  shows "dom g' = dom g - {ref sv}
           - (if Constant x (g(ref sv := None)) then {} else {ref iv})"
proof -
  from run obtain stateSlot stateVar inputSlot input' where
    a: "idx_int (InStateVars step) (int l) = Some stateSlot" "stateSlot = Some stateVar"
    and b: "idx_int (step_Inputs step) (int l) = Some inputSlot" "inputSlot = Some input'"
    and c: "(if \<not> Constant input' (g(ref stateVar := None)) then
                idx_int (InputVars step) (int l) \<bind> (\<lambda>varSlot. varSlot \<bind> (\<lambda>inputVar.
                  Some (su[nat (int l) := g (ref stateVar)],
                    PropagateGradient input'
                      (case (g(ref stateVar := None)) (ref inputVar) of None \<Rightarrow> [] | Some v \<Rightarrow> v)
                      ((g(ref stateVar := None))(ref inputVar := None)))))
              else Some (su[nat (int l) := g (ref stateVar)], g(ref stateVar := None)))
            = Some (su', g')"
    unfolding grad_collect_def Let_def
    by (auto simp: bind_eq_Some_conv)
  have sv: "stateVar = sv" using idx_int_Some [OF a(1)] a(2) vars(1) by simp
  have x: "input' = x" using idx_int_Some [OF b(1)] b(2) vars(3) by simp
  show ?thesis
  proof (cases "Constant x (g(ref sv := None))")
    case True
    then show ?thesis using c sv x by (auto split: if_splits)
  next
    case False
    then obtain varSlot inputVar where
      e: "idx_int (InputVars step) (int l) = Some varSlot" "varSlot = Some inputVar"
      and f: "g' = PropagateGradient x
                      (case (g(ref sv := None)) (ref inputVar) of None \<Rightarrow> [] | Some v \<Rightarrow> v)
                      ((g(ref sv := None))(ref inputVar := None))"
      using c sv x by (auto simp: bind_eq_Some_conv)
    have "inputVar = iv" using idx_int_Some [OF e(1)] e(2) vars(2) by simp
    then show ?thesis using False f frame by (auto split: if_splits)
  qed
qed

lemma grad_lanes_keeps_dom:
  assumes run: "grad_lanes step upstream t (su, g) = Some (su', g')"
    and keys: "fmdom' (LaneToOut step) = int ` A" "A \<subseteq> {..<n}" "int n < 2 ^ 63"
    and vars: "\<forall>l\<in>A. \<exists>sv iv x. InStateVars step ! l = Some sv \<and> InputVars step ! l = Some iv
        \<and> step_Inputs step ! l = Some x \<and> nxt \<le> ref sv \<and> nxt \<le> ref iv \<and> result_frame nxt x"
    and out: "step_Outputs step = Some bo" "\<forall>u g. dom (Gradient bo u g) = dom g"
    and g: "\<forall>l\<in>A. \<forall>v. InStateVars step ! l = Some v \<or> InputVars step ! l = Some v \<longrightarrow>
              ref v \<notin> dom g"
  shows "dom g' = dom g"
proof -
  define ls where "ls = sorted_list_of_set (fmdom' (LaneToOut step))"
  have fin: "finite A" using keys(2) by (rule finite_subset) simp
  have setls: "set ls = int ` A" unfolding ls_def keys(1) using fin by simp
  have bounds: "\<forall>x\<in>fmdom' (LaneToOut step). 0 \<le> x \<and> x < 2 ^ 63"
    using keys by auto
  have loop: "loopUsedLanes (LaneToOut step) f s = foldM f ls s" for f and s :: "'s"
    unfolding ls_def by (rule loopUsedLanes_sorted [OF bounds])
  define sv where "sv z = the (InStateVars step ! nat z)" for z :: int
  define iv where "iv z = the (InputVars step ! nat z)" for z :: int
  define x where "x z = the (step_Inputs step ! nat z)" for z :: int
  define K where "K z = insert (ref (sv z)) (if Constant (x z) g then {} else {ref (iv z)})"
    for z :: int
  have lane: "\<exists>l. z = int l \<and> InStateVars step ! l = Some (sv z)
      \<and> InputVars step ! l = Some (iv z) \<and> step_Inputs step ! l = Some (x z)
      \<and> nxt \<le> ref (sv z) \<and> nxt \<le> ref (iv z) \<and> result_frame nxt (x z)"
    if "z \<in> set ls" for z
  proof -
    from that setls obtain l where l: "z = int l" "l \<in> A" by auto
    from vars l(2) show ?thesis unfolding sv_def iv_def x_def l(1) by fastforce
  qed
  have Kge: "K z \<subseteq> {nxt..}" if "z \<in> set ls" for z
    using lane [OF that] unfolding K_def by auto
  have low: "(dom g \<union> \<Union>(K ` (S \<inter> set ls)) - D) \<inter> {..<nxt} = dom g \<inter> {..<nxt}"
    if "D \<subseteq> {nxt..}" for S D
    using Kge that by fastforce
  have const: "Constant (x z) h = Constant (x z) g"
    if "z \<in> set ls" "dom h \<inter> {..<nxt} = dom g \<inter> {..<nxt}" for z h
    using lane [OF that(1)] that(2) unfolding result_frame_def by blast
  from run obtain stepUpstream g1 where
    p: "foldM (grad_prepare step upstream t su) ls (\<lparr>up_States = [], up_Outputs = []\<rparr>, g)
          = Some (stepUpstream, g1)"
    and c: "foldM (grad_collect step) ls (su, Gradient bo stepUpstream g1) = Some (su', g')"
    unfolding grad_lanes_def loop out by (auto simp: bind_eq_Some_conv Let_def)
  have "case (stepUpstream, g1) of (a, h) \<Rightarrow> dom h = dom g \<union> \<Union>(K ` (set ls \<inter> set ls))"
  proof (rule foldM_list_inv [OF p,
        where I = "\<lambda>ds (a, h). dom h = dom g \<union> \<Union>(K ` (set ds \<inter> set ls))"])
    show "case (\<lparr>up_States = [], up_Outputs = []\<rparr>, g) of
        (a, h) \<Rightarrow> dom h = dom g \<union> \<Union>(K ` (set [] \<inter> set ls))" by simp
  next
    fix ys z a b
    assume inv: "case a of (a, h) \<Rightarrow> dom h = dom g \<union> \<Union>(K ` (set ys \<inter> set ls))"
      and z: "z \<in> set ls" and f: "grad_prepare step upstream t su z a = Some b"
    obtain a1 h where a: "a = (a1, h)" by (cases a)
    obtain b1 h' where b: "b = (b1, h')" by (cases b)
    from lane [OF z] obtain l where l: "z = int l" "InStateVars step ! l = Some (sv z)"
      "InputVars step ! l = Some (iv z)" "step_Inputs step ! l = Some (x z)"
      "nxt \<le> ref (sv z)" by blast
    have h: "dom h = dom g \<union> \<Union>(K ` (set ys \<inter> set ls))" using inv a by simp
    have "dom (h(ref (sv z) \<mapsto> replicate (length (Vector (sv z))) 0)) \<inter> {..<nxt}
        = dom h \<inter> {..<nxt}"
      using l(5) by auto
    also have "\<dots> = dom g \<inter> {..<nxt}"
      unfolding h using low [of "{}" "set ys"] by simp
    finally have "dom (h(ref (sv z) \<mapsto> replicate (length (Vector (sv z))) 0)) \<inter> {..<nxt}
        = dom g \<inter> {..<nxt}" .
    then have cst: "Constant (x z) (h(ref (sv z) \<mapsto> replicate (length (Vector (sv z))) 0))
        = Constant (x z) g"
      by (rule const [OF z])
    have "dom h' = dom h \<union> K z"
      unfolding K_def grad_prepare_dom [OF f [unfolded a b l(1)] l(2,3,4)] cst by auto
    then show "case b of (a, h) \<Rightarrow> dom h = dom g \<union> \<Union>(K ` (set (ys @ [z]) \<inter> set ls))"
      unfolding b h using z by auto
  qed
  then have g1: "dom (Gradient bo stepUpstream g1) = dom g \<union> \<Union>(K ` set ls)"
    using out(2) by simp
  have "case (su', g') of (a, h) \<Rightarrow>
      dom h = dom g \<union> \<Union>(K ` (set ls \<inter> set ls)) - \<Union>(K ` (set ls \<inter> set ls))"
  proof (rule foldM_list_inv [OF c,
        where I = "\<lambda>ds (a, h). dom h
           = dom g \<union> \<Union>(K ` (set ls \<inter> set ls)) - \<Union>(K ` (set ds \<inter> set ls))"])
    show "case (su, Gradient bo stepUpstream g1) of
        (a, h) \<Rightarrow> dom h = dom g \<union> \<Union>(K ` (set ls \<inter> set ls)) - \<Union>(K ` (set [] \<inter> set ls))"
      using g1 by simp
  next
    fix ys z a b
    assume inv: "case a of (a, h) \<Rightarrow> dom h
          = dom g \<union> \<Union>(K ` (set ls \<inter> set ls)) - \<Union>(K ` (set ys \<inter> set ls))"
      and z: "z \<in> set ls" and f: "grad_collect step z a = Some b"
    obtain a1 h where a: "a = (a1, h)" by (cases a)
    obtain b1 h' where b: "b = (b1, h')" by (cases b)
    from lane [OF z] obtain l where l: "z = int l" "InStateVars step ! l = Some (sv z)"
      "InputVars step ! l = Some (iv z)" "step_Inputs step ! l = Some (x z)"
      "nxt \<le> ref (sv z)" "result_frame nxt (x z)" by blast
    have h: "dom h = dom g \<union> \<Union>(K ` (set ls \<inter> set ls)) - \<Union>(K ` (set ys \<inter> set ls))"
      using inv a by simp
    have sub: "\<Union>(K ` (set ys \<inter> set ls)) \<subseteq> {nxt..}" using Kge by auto
    have "dom (h(ref (sv z) := None)) \<inter> {..<nxt} = dom h \<inter> {..<nxt}"
      using l(5) by auto
    also have "\<dots> = dom g \<inter> {..<nxt}"
      unfolding h using low [OF sub, of "set ls"] by simp
    finally have "dom (h(ref (sv z) := None)) \<inter> {..<nxt} = dom g \<inter> {..<nxt}" .
    then have cst: "Constant (x z) (h(ref (sv z) := None)) = Constant (x z) g"
      by (rule const [OF z])
    have fr: "\<forall>u g. dom (PropagateGradient (x z) u g) = dom g"
      using l(6) by (simp add: result_frame_def)
    have "dom h' = dom h - K z"
      unfolding K_def grad_collect_dom [OF f [unfolded a b l(1)] l(2,3,4) fr] cst by auto
    then show "case b of (a, h) \<Rightarrow> dom h
          = dom g \<union> \<Union>(K ` (set ls \<inter> set ls)) - \<Union>(K ` (set (ys @ [z]) \<inter> set ls))"
      unfolding b h using z by auto
  qed
  then have "dom g' = dom g \<union> \<Union>(K ` set ls) - \<Union>(K ` set ls)" by simp
  moreover have "dom g \<inter> \<Union>(K ` set ls) = {}"
  proof -
    have "K z \<inter> dom g = {}" if "z \<in> set ls" for z
    proof -
      from lane [OF that] obtain l where l: "z = int l" "InStateVars step ! l = Some (sv z)"
        "InputVars step ! l = Some (iv z)" by blast
      from that setls l(1) have "l \<in> A" by auto
      with g l(2,3) have "ref (sv z) \<notin> dom g" "ref (iv z) \<notin> dom g" by blast+
      then show ?thesis unfolding K_def by auto
    qed
    then show ?thesis by blast
  qed
  ultimately show ?thesis by auto
qed

lemma step_at_facts:
  assumes "step_at r seqs nxt res t"
  shows "\<exists>input. step_Outputs (Steps res ! t) = Some (Batch r input)"
    and "fmdom' (LaneToOut (Steps res ! t)) = int ` {l. l < length seqs \<and> t < length (seqs ! l)}"
    and "\<forall>l\<in>{l. l < length seqs \<and> t < length (seqs ! l)}.
           \<exists>sv iv x. InStateVars (Steps res ! t) ! l = Some sv
             \<and> InputVars (Steps res ! t) ! l = Some iv
             \<and> step_Inputs (Steps res ! t) ! l = Some x
             \<and> nxt \<le> ref sv \<and> nxt \<le> ref iv \<and> x \<in> set (seqs ! l)"
    and "\<forall>l<length seqs. \<not> t < length (seqs ! l) \<longrightarrow>
           InStateVars (Steps res ! t) ! l = None \<and> InputVars (Steps res ! t) ! l = None"
    and "length (InStateVars (Steps res ! t)) = length seqs"
    and "length (InputVars (Steps res ! t)) = length seqs"
proof -
  from assms obtain step0 input nx sv where
    nx: "nxt \<le> nx"
    and lb: "lanes_built seqs t sv nx (length seqs) step0 input"
    and st: "Steps res ! t = step0\<lparr>step_Outputs := Some (Batch r input)\<rparr>"
    unfolding step_at_def by blast
  show "\<exists>input. step_Outputs (Steps res ! t) = Some (Batch r input)"
    unfolding st by auto
  show "fmdom' (LaneToOut (Steps res ! t)) = int ` {l. l < length seqs \<and> t < length (seqs ! l)}"
    using lb unfolding st lanes_built_def by simp
  show "length (InStateVars (Steps res ! t)) = length seqs"
    using lb unfolding st lanes_built_def by simp
  show "length (InputVars (Steps res ! t)) = length seqs"
    using lb unfolding st lanes_built_def by simp
  show "\<forall>l<length seqs. \<not> t < length (seqs ! l) \<longrightarrow>
           InStateVars (Steps res ! t) ! l = None \<and> InputVars (Steps res ! t) ! l = None"
    using lb unfolding st lanes_built_def by simp
  have act: "\<forall>l<length seqs. t < length (seqs ! l) \<longrightarrow>
           step_Inputs step0 ! l = Some (seqs ! l ! t)
         \<and> InputVars step0 ! l = Some (in_Inputs input ! pos seqs t l)
         \<and> InStateVars step0 ! l = Some (in_States input ! pos seqs t l)
         \<and> in_Inputs input ! pos seqs t l
              = \<lparr>ref = nx + 2 * pos seqs t l, Vector = Output (seqs ! l ! t)\<rparr>
         \<and> in_States input ! pos seqs t l
              = \<lparr>ref = nx + 2 * pos seqs t l + 1, Vector = sv l\<rparr>"
    using lb unfolding lanes_built_def by simp
  show "\<forall>l\<in>{l. l < length seqs \<and> t < length (seqs ! l)}.
           \<exists>sv iv x. InStateVars (Steps res ! t) ! l = Some sv
             \<and> InputVars (Steps res ! t) ! l = Some iv
             \<and> step_Inputs (Steps res ! t) ! l = Some x
             \<and> nxt \<le> ref sv \<and> nxt \<le> ref iv \<and> x \<in> set (seqs ! l)"
  proof
    fix l assume "l \<in> {l. l < length seqs \<and> t < length (seqs ! l)}"
    then have l: "l < length seqs" "t < length (seqs ! l)" by simp_all
    from act [rule_format, OF l] nx l(2) show "\<exists>sv iv x. InStateVars (Steps res ! t) ! l = Some sv
             \<and> InputVars (Steps res ! t) ! l = Some iv
             \<and> step_Inputs (Steps res ! t) ! l = Some x
             \<and> nxt \<le> ref sv \<and> nxt \<le> ref iv \<and> x \<in> set (seqs ! l)"
      unfolding st by simp
  qed
qed

lemma fold_start_dom:
  assumes "\<forall>u g. dom (P u g) = dom g"
  shows "dom (fold (\<lambda>upstream g. case upstream of None \<Rightarrow> g | Some v \<Rightarrow> P v g) su g) = dom g"
  using assms by (induction su arbitrary: g) (auto split: option.splits)

lemma Gradient_keeps_dom:
  assumes un: "unrolled r seqs nxt T res"
    and fr: "block_frame r"
    and start: "\<forall>u g. dom (PropagateGradient (StartState r) u g) = dom g"
    and inputs: "\<forall>seq\<in>set seqs. \<forall>x\<in>set seq. result_frame nxt x"
    and n63: "int (length seqs) < 2 ^ 63"
    and g: "\<forall>step\<in>set (Steps res). \<forall>v.
              Some v \<in> set (InStateVars step) \<union> set (InputVars step) \<longrightarrow> ref v \<notin> dom g"
    and run: "BlockSeqFuncOutput_Gradient res upstream g = Some g'"
  shows "dom g' = dom g"
proof -
  have T: "length (Steps res) = T" and ss: "out_StartState res = StartState r"
    and steps: "\<forall>t<T. step_at r seqs nxt res t"
    using un by (simp_all add: unrolled_def)
  from run obtain su g1 where
    loop: "foldM (grad_step res upstream) (rev [0..<length (Steps res)])
             (replicate (length (PackedOut res)) None, g) = Some (su, g1)"
    and fin: "g' = fold (\<lambda>upstream g. case upstream of None \<Rightarrow> g
                       | Some v \<Rightarrow> PropagateGradient (out_StartState res) v g) su g1"
    unfolding BlockSeqFuncOutput_Gradient_def Let_def
    by (auto simp: bind_eq_Some_conv split: if_splits)
  have "case (su, g1) of (a, h) \<Rightarrow> dom h = dom g"
  proof (rule foldM_list_inv [OF loop, where I = "\<lambda>ds (a, h). dom h = dom g"])
    show "case (replicate (length (PackedOut res)) None, g) of (a, h) \<Rightarrow> dom h = dom g"
      by simp
  next
    fix ys t a b
    assume inv: "case a of (a, h) \<Rightarrow> dom h = dom g"
      and t: "t \<in> set (rev [0..<length (Steps res)])"
      and f: "grad_step res upstream t a = Some b"
    obtain a1 h where a: "a = (a1, h)" by (cases a)
    obtain b1 h' where b: "b = (b1, h')" by (cases b)
    have tT: "t < T" using t T by simp
    have dh: "dom h = dom g" using inv a by simp
    have mem: "Steps res ! t \<in> set (Steps res)" using tT T by simp
    from f have gl: "grad_lanes (Steps res ! t) upstream t (a1, h) = Some (b1, h')"
      unfolding grad_step_def a b using tT T by (simp add: idx_def)
    note sf = step_at_facts [OF steps [rule_format, OF tT]]
    from sf(1) obtain input where
      out: "step_Outputs (Steps res ! t) = Some (Batch r input)" by blast
    have bf: "\<forall>u g. dom (Gradient (Batch r input) u g) = dom g"
      using fr by (simp add: block_frame_def)
    have vars: "\<forall>l\<in>{l. l < length seqs \<and> t < length (seqs ! l)}.
        \<exists>sv iv x. InStateVars (Steps res ! t) ! l = Some sv
          \<and> InputVars (Steps res ! t) ! l = Some iv
          \<and> step_Inputs (Steps res ! t) ! l = Some x
          \<and> nxt \<le> ref sv \<and> nxt \<le> ref iv \<and> result_frame nxt x"
    proof
      fix l assume l: "l \<in> {l. l < length seqs \<and> t < length (seqs ! l)}"
      from sf(3) [rule_format, OF l] obtain sv iv x where
        v: "InStateVars (Steps res ! t) ! l = Some sv" "InputVars (Steps res ! t) ! l = Some iv"
          "step_Inputs (Steps res ! t) ! l = Some x" "nxt \<le> ref sv" "nxt \<le> ref iv"
          "x \<in> set (seqs ! l)" by blast
      have "seqs ! l \<in> set seqs" using l by simp
      with inputs v(6) have "result_frame nxt x" by blast
      with v show "\<exists>sv iv x. InStateVars (Steps res ! t) ! l = Some sv
          \<and> InputVars (Steps res ! t) ! l = Some iv
          \<and> step_Inputs (Steps res ! t) ! l = Some x
          \<and> nxt \<le> ref sv \<and> nxt \<le> ref iv \<and> result_frame nxt x" by blast
    qed
    have sub: "{l. l < length seqs \<and> t < length (seqs ! l)} \<subseteq> {..<length seqs}" by auto
    have h: "\<forall>l\<in>{l. l < length seqs \<and> t < length (seqs ! l)}. \<forall>v.
        InStateVars (Steps res ! t) ! l = Some v \<or> InputVars (Steps res ! t) ! l = Some v \<longrightarrow>
          ref v \<notin> dom h"
    proof (intro ballI allI impI)
      fix l v
      assume l: "l \<in> {l. l < length seqs \<and> t < length (seqs ! l)}"
        and v: "InStateVars (Steps res ! t) ! l = Some v \<or> InputVars (Steps res ! t) ! l = Some v"
      have "l < length (InStateVars (Steps res ! t))" "l < length (InputVars (Steps res ! t))"
        using l sf(5,6) by simp_all
      then have "Some v \<in> set (InStateVars (Steps res ! t)) \<union> set (InputVars (Steps res ! t))"
        using v nth_mem by (metis UnI1 UnI2)
      with g mem show "ref v \<notin> dom h" unfolding dh by blast
    qed
    from grad_lanes_keeps_dom [OF gl sf(2) sub n63 vars out bf h]
    show "case b of (a, h) \<Rightarrow> dom h = dom g" using inv a b by simp
  qed
  then have "dom g1 = dom g" by simp
  then show ?thesis unfolding fin ss using fold_start_dom [OF start] by simp
qed

lemma unrolled_vars_fresh:
  assumes un: "unrolled r seqs nxt T res"
    and step: "step \<in> set (Steps res)"
    and v: "Some v \<in> set (InStateVars step) \<union> set (InputVars step)"
  shows "nxt \<le> ref v"
proof -
  have T: "length (Steps res) = T" and steps: "\<forall>t<T. step_at r seqs nxt res t"
    using un by (simp_all add: unrolled_def)
  from step obtain t where t: "t < length (Steps res)" "step = Steps res ! t"
    by (auto simp: in_set_conv_nth)
  have tT: "t < T" using t T by simp
  note sf = step_at_facts [OF steps [rule_format, OF tT], folded t(2)]
  from v sf(5,6) obtain l where l: "l < length seqs"
    and lv: "InStateVars step ! l = Some v \<or> InputVars step ! l = Some v"
    by (auto simp: in_set_conv_nth)
  have act: "t < length (seqs ! l)"
  proof (rule ccontr)
    assume "\<not> t < length (seqs ! l)"
    with sf(4) l have "InStateVars step ! l = None \<and> InputVars step ! l = None" by blast
    with lv show False by auto
  qed
  with l have "l \<in> {l. l < length seqs \<and> t < length (seqs ! l)}" by simp
  from sf(3) [rule_format, OF this] lv show ?thesis by auto
qed

lemma add_to_dom: "dom (add_to g r v) = dom g"
  by (auto simp: add_to_def split: option.splits)

lemma var_result_frame:
  assumes v: "ref v < nxt"
  shows "result_frame nxt (var_result v)"
  unfolding result_frame_def
proof (intro conjI allI impI)
  fix u g
  show "dom (PropagateGradient (var_result v) u g) = dom g"
    by (simp add: var_result_def add_to_dom)
next
  fix g g' :: gradient
  assume e: "dom g \<inter> {..<nxt} = dom g' \<inter> {..<nxt}"
  have "ref v \<in> dom g \<inter> {..<nxt} \<longleftrightarrow> ref v \<in> dom g' \<inter> {..<nxt}"
    unfolding e ..
  then have "ref v \<in> dom g \<longleftrightarrow> ref v \<in> dom g'" using v by simp
  then have "(g (ref v) = None) = (g' (ref v) = None)" by (simp only: domIff) blast
  then show "Constant (var_result v) g = Constant (var_result v) g'"
    by (simp only: var_result_def result.simps)
qed

lemma demo_block_frame: "block_frame demo_block"
proof -
  have a: "dom (fold (\<lambda>(st, v) g. add_to g (ref st) v) xs g) = dom g"
    for xs :: "(variable \<times> vec) list" and g
    by (induction xs arbitrary: g) (simp_all add: add_to_dom split_beta)
  have b: "dom (fold (\<lambda>(x, v) g. add_to g (ref x) (take (length (Vector x)) v)) xs g) = dom g"
    for xs :: "(variable \<times> vec) list" and g
    by (induction xs arbitrary: g) (simp_all add: add_to_dom split_beta)
  show ?thesis by (simp add: block_frame_def demo_block_def demo_batch_def a b)
qed

lemma BatchSeqs_unrolled:
  assumes ok: "block_ok r" and run: "BlockSeqFunc_BatchSeqs r seqs nxt = Some (res, nxt')"
  shows "unrolled r seqs nxt (horizon seqs) res"
proof -
  define res0 where "res0 = \<lparr>out_StartState = StartState r, Steps = [],
      PackedOut = replicate (length seqs) ([] :: vec list)\<rparr>"
  have "unrolled r seqs nxt 0 res0" by (simp add: unrolled_def res0_def)
  from BatchSeqs_loop_unrolls [OF ok this, of nxt] obtain res1 nxt1 where
    "BatchSeqs_loop r seqs 0 res0 nxt = Some (res1, nxt1)"
    "unrolled r seqs nxt (horizon seqs) res1" by auto
  then show ?thesis using run by (simp add: BlockSeqFunc_BatchSeqs_def res0_def)
qed

lemma demo_gradient_eval:
  "(case BlockSeqFunc_BatchSeqs demo_block demo_seqs 100 of None \<Rightarrow> None
    | Some (res, n) \<Rightarrow>
        map_option (\<lambda>g'. (n, map g' [10, 12]))
          (BlockSeqFuncOutput_Gradient res [[[1, 1], [1, 1], [1, 1]], [[1, 1]]] demo_gradient))
   = Some (108, [Some [1], None])"
  by code_simp

text \<open>
  Claim C4. First part: take a Block that returns one output and one state per lane, whose
  gradient and whose start state neither add nor remove keys of the gradient map, and raw
  inputs that do the same and whose \<open>Constant\<close> depends only on the keys of variables
  allocated before the forward pass. The intermediate variables of the forward pass are
  the in-state variables and input variables of its steps; they are allocated by the pass.
  If the gradient map has no entry for an intermediate variable when
  \<open>BlockSeqFuncOutput.Gradient\<close> is called and the call returns, then the map has exactly
  the keys it had before the call: every entry the call created for an intermediate
  variable is gone, and no intermediate variable has an entry. Second part: if the three
  sub-gradients of a \<open>bidirectionalResult\<close> add no keys and its \<open>Gradient\<close> returns, the map
  has no keys but those it had before the call, and no entry for any joined variable.
\<close>

theorem Gradient_drains_intermediates:
  fixes r :: Block and b :: bidirectionalResult
  shows "(block_ok r \<and> block_frame r
      \<and> (\<forall>u g. dom (PropagateGradient (StartState r) u g) = dom g)
      \<and> (\<forall>seq\<in>set seqs. \<forall>x\<in>set seq. result_frame nxt x)
      \<and> int (length seqs) < 2 ^ 63
      \<and> BlockSeqFunc_BatchSeqs r seqs nxt = Some (res, nxt')
      \<and> (\<forall>step\<in>set (Steps res). \<forall>v.
            Some v \<in> set (InStateVars step) \<union> set (InputVars step) \<longrightarrow> ref v \<notin> dom g)
      \<and> BlockSeqFuncOutput_Gradient res upstream g = Some g'
     \<longrightarrow> dom g' = dom g
        \<and> (\<forall>step\<in>set (Steps res). \<forall>v.
              Some v \<in> set (InStateVars step) \<union> set (InputVars step) \<longrightarrow>
                nxt \<le> ref v \<and> g' (ref v) = None))
   \<and> (no_new_keys (Out b) \<and> no_new_keys (ForwardOut b) \<and> no_new_keys (BackwardOut b)
      \<and> bidirectionalResult_Gradient b upstream_b gb = Some gb'
     \<longrightarrow> dom gb' \<subseteq> dom gb - ref ` set (concat (Joined b))
        \<and> (\<forall>v\<in>set (concat (Joined b)). gb' (ref v) = None))"
proof (intro conjI impI)
  assume a: "block_ok r \<and> block_frame r
      \<and> (\<forall>u g. dom (PropagateGradient (StartState r) u g) = dom g)
      \<and> (\<forall>seq\<in>set seqs. \<forall>x\<in>set seq. result_frame nxt x)
      \<and> int (length seqs) < 2 ^ 63
      \<and> BlockSeqFunc_BatchSeqs r seqs nxt = Some (res, nxt')
      \<and> (\<forall>step\<in>set (Steps res). \<forall>v.
            Some v \<in> set (InStateVars step) \<union> set (InputVars step) \<longrightarrow> ref v \<notin> dom g)
      \<and> BlockSeqFuncOutput_Gradient res upstream g = Some g'"
  then have un: "unrolled r seqs nxt (horizon seqs) res"
    using BatchSeqs_unrolled by blast
  from a have fr: "block_frame r"
    and start: "\<forall>u g. dom (PropagateGradient (StartState r) u g) = dom g"
    and inputs: "\<forall>seq\<in>set seqs. \<forall>x\<in>set seq. result_frame nxt x"
    and n63: "int (length seqs) < 2 ^ 63"
    and g: "\<forall>step\<in>set (Steps res). \<forall>v.
            Some v \<in> set (InStateVars step) \<union> set (InputVars step) \<longrightarrow> ref v \<notin> dom g"
    and run: "BlockSeqFuncOutput_Gradient res upstream g = Some g'"
    by simp_all
  show d: "dom g' = dom g"
    by (rule Gradient_keeps_dom [OF un fr start inputs n63 g run])
  show "\<forall>step\<in>set (Steps res). \<forall>v.
              Some v \<in> set (InStateVars step) \<union> set (InputVars step) \<longrightarrow>
                nxt \<le> ref v \<and> g' (ref v) = None"
  proof (intro ballI allI impI)
    fix step v
    assume s: "step \<in> set (Steps res)"
      and v: "Some v \<in> set (InStateVars step) \<union> set (InputVars step)"
    have f: "nxt \<le> ref v" by (rule unrolled_vars_fresh [OF un s v])
    have "ref v \<notin> dom g'" using g s v unfolding d by blast
    then show "nxt \<le> ref v \<and> g' (ref v) = None" using f by (simp add: domIff)
  qed
next
  assume a: "no_new_keys (Out b) \<and> no_new_keys (ForwardOut b) \<and> no_new_keys (BackwardOut b)
      \<and> bidirectionalResult_Gradient b upstream_b gb = Some gb'"
  then have c: "no_new_keys (Out b)" "no_new_keys (ForwardOut b)" "no_new_keys (BackwardOut b)"
    and run: "bidirectionalResult_Gradient b upstream_b gb = Some gb'"
    by simp_all
  show d: "dom gb' \<subseteq> dom gb - ref ` set (concat (Joined b))"
    by (rule bidirectional_drained [OF c run])
  show "\<forall>v\<in>set (concat (Joined b)). gb' (ref v) = None"
  proof
    fix v assume "v \<in> set (concat (Joined b))"
    then have "ref v \<notin> dom gb'" using d by blast
    then show "gb' (ref v) = None" by (simp add: domIff)
  qed
qed

theorem Gradient_drains_intermediates_witness:
  "\<exists>res g' g2'.
      block_ok demo_block \<and> block_frame demo_block
    \<and> BlockSeqFunc_BatchSeqs demo_block demo_seqs 100 = Some (res, 108)
    \<and> dom demo_gradient = {0, 1, 2, 10, 11}
    \<and> BlockSeqFuncOutput_Gradient res [[[1, 1], [1, 1], [1, 1]], [[1, 1]]] demo_gradient = Some g'
    \<and> dom g' = {0, 1, 2, 10, 11} \<and> g' 10 = Some [1] \<and> g' 12 = None \<and> g' 100 = None
    \<and> no_new_keys (Out demo_result) \<and> no_new_keys (ForwardOut demo_result)
    \<and> no_new_keys (BackwardOut demo_result)
    \<and> bidirectionalResult_Gradient demo_result [[[10, 20], [30, 40]]] demo_gradient = Some g2'
    \<and> dom g2' \<subseteq> {0, 1, 2, 10, 11} \<and> g2' 20 = None \<and> g2' 21 = None"
proof -
  obtain p where p: "BlockSeqFunc_BatchSeqs demo_block demo_seqs 100 = Some p"
    using demo_gradient_eval by (cases "BlockSeqFunc_BatchSeqs demo_block demo_seqs 100") simp_all
  obtain res n where rn: "p = (res, n)" by (cases p)
  obtain g' where
    gr: "BlockSeqFuncOutput_Gradient res [[[1, 1], [1, 1], [1, 1]], [[1, 1]]] demo_gradient = Some g'"
    using demo_gradient_eval unfolding p rn
    by (cases "BlockSeqFuncOutput_Gradient res [[[1, 1], [1, 1], [1, 1]], [[1, 1]]] demo_gradient")
      simp_all
  have vals: "n = 108" "g' 10 = Some [1]" "g' 12 = None"
    using demo_gradient_eval gr by (auto simp: p rn)
  have run: "BlockSeqFunc_BatchSeqs demo_block demo_seqs 100 = Some (res, 108)"
    using p rn vals(1) by simp
  obtain g2' where
    g2: "bidirectionalResult_Gradient demo_result [[[10, 20], [30, 40]]] demo_gradient = Some g2'"
    using demo_result_eval
    by (cases "bidirectionalResult_Gradient demo_result [[[10, 20], [30, 40]]] demo_gradient")
      simp_all
  have dg: "dom demo_gradient = {0, 1, 2, 10, 11}" by (auto simp: demo_gradient_def)
  have un: "unrolled demo_block demo_seqs 100 (horizon demo_seqs) res"
    by (rule BatchSeqs_unrolled [OF demo_block_ok run])
  have fresh: "\<forall>step\<in>set (Steps res). \<forall>v.
      Some v \<in> set (InStateVars step) \<union> set (InputVars step) \<longrightarrow> ref v \<notin> dom demo_gradient"
  proof (intro ballI allI impI)
    fix step v
    assume "step \<in> set (Steps res)" "Some v \<in> set (InStateVars step) \<union> set (InputVars step)"
    from unrolled_vars_fresh [OF un this] show "ref v \<notin> dom demo_gradient"
      unfolding dg by auto
  qed
  have start: "\<forall>u g. dom (PropagateGradient (StartState demo_block) u g) = dom g"
    by (simp add: demo_block_def var_result_def add_to_dom)
  have inputs: "\<forall>seq\<in>set demo_seqs. \<forall>x\<in>set seq. result_frame 100 x"
    by (simp add: demo_seqs_def var_result_frame)
  have n63: "int (length demo_seqs) < 2 ^ 63" by (simp add: demo_seqs_def)
  have nk: "no_new_keys (Out demo_result)" "no_new_keys (ForwardOut demo_result)"
    "no_new_keys (BackwardOut demo_result)"
    by (auto simp: no_new_keys_def demo_result_def add_to_dom)
  have j: "ref ` set (concat (Joined demo_result)) = {20, 21}"
    by (simp add: demo_result_def)
  note th = Gradient_drains_intermediates [where r = demo_block and seqs = demo_seqs
      and nxt = 100 and res = res and nxt' = 108 and g = demo_gradient
      and upstream = "[[[1, 1], [1, 1], [1, 1]], [[1, 1]]]" and g' = g'
      and b = demo_result and upstream_b = "[[[10, 20], [30, 40]]]" and gb = demo_gradient
      and gb' = g2']
  from th demo_block_ok demo_block_frame start inputs n63 run fresh gr
  have d1: "dom g' = dom demo_gradient" by blast
  then have "100 \<notin> dom g'" unfolding dg by simp
  then have g100: "g' 100 = None" by (simp add: domIff)
  from th nk g2
  have d2: "dom g2' \<subseteq> dom demo_gradient - ref ` set (concat (Joined demo_result))"
    and e2: "\<forall>v\<in>set (concat (Joined demo_result)). g2' (ref v) = None"
    by blast+
  have "20 \<notin> dom g2'" "21 \<notin> dom g2'" using d2 unfolding j by auto
  then have g20: "g2' 20 = None" "g2' 21 = None" by (simp_all add: domIff)
  have d2': "dom g2' \<subseteq> {0, 1, 2, 10, 11}" using d2 unfolding dg by blast
  show ?thesis
    using demo_block_ok demo_block_frame run dg gr d1 [unfolded dg] vals(2,3) g100 nk g2 d2' g20
    by blast
qed

end
